theory Spec2Isabelle
  imports Main "HOL-Library.Word"
begin

section \<open>Shared types of the batch-query library\<close>

text \<open>
  An account or contract address is go-ethereum's \<^verbatim>\<open>common.Address\<close>, twenty bytes; call data
  and responses are byte slices. A \<^verbatim>\<open>*big.Int\<close> is an optional unbounded integer, \<open>None\<close> being
  the nil pointer.
\<close>

type_synonym address = "160 word"
type_synonym bytes = "8 word list"

text \<open>
  A Go \<^verbatim>\<open>error\<close> value is what the library can observe of it: the text its \<^verbatim>\<open>Error()\<close>
  method gives and the error it wraps, if any. \<^verbatim>\<open>fmt.Errorf\<close> with a trailing \<^verbatim>\<open>%w\<close> verb
  appends the text of the wrapped error to the formatted prefix and keeps the wrapped error.
\<close>

datatype error = GoError (Error: string) (Unwrap: "error option")

definition Errorf_w :: "string \<Rightarrow> error \<Rightarrow> error" where
  "Errorf_w prefix err = GoError (prefix @ Error err) (Some err)"

definition Errorf :: "string \<Rightarrow> error" where
  "Errorf msg = GoError msg None"

text \<open>
  A run-time panic is an outcome of its own: the function does not return. Indexing a slice
  outside \<open>[0, len)\<close> and slicing with bounds out of order are the two the library can reach.
\<close>

datatype panic = IndexOutOfRange int int | SliceBoundsOutOfRange int int

datatype 'a outcome = Returned 'a | Panicked panic

record CallMsg =
  To :: address
  Data :: bytes

record CallOpts =
  BlockNumber :: "int option"

text \<open>
  \<^verbatim>\<open>IContractCaller.CallContract(ctx, call, blockNumber)\<close> of \<^verbatim>\<open>types.go\<close>: the transport
  capability. It is the library's whole I/O boundary; the model takes it as a function of
  the message and the block number and records every invocation in a trace.
\<close>

type_synonym IContractCaller = "CallMsg \<Rightarrow> int option \<Rightarrow> error + bytes"

definition blockNumber_of :: "CallOpts option \<Rightarrow> int option" where
  "blockNumber_of opts = (case opts of None \<Rightarrow> None | Some v \<Rightarrow> BlockNumber v)"

section \<open>MultiCaller\<close>

text \<open>
  The model follows the current version of the multicall file, in which a descriptor
  carries its encode step (\<^verbatim>\<open>PackFunc\<close>) and \<^verbatim>\<open>FlexibleCall\<close> runs it.
\<close>

record Call =
  Target :: address
  CallData :: bytes
  Method :: string
  PackFunc :: "unit \<Rightarrow> error + bytes"
  UnpackFunc :: "bytes \<Rightarrow> error option"

record CallResponse =
  Status :: bool
  ReturnData :: bytes

record MultiCaller =
  client :: IContractCaller
  contractAddress :: address
  calls :: "Call list"

text \<open>
  The codec capability, go-ethereum's \<^verbatim>\<open>abi.ABI\<close>. For a contract of the caller's,
  \<^verbatim>\<open>Pack(method, args...)\<close> and \<^verbatim>\<open>UnpackIntoInterface(output, method, data)\<close>; for the
  Multicall v2 contract, the same two specialised to \<^verbatim>\<open>tryAggregate\<close>, whose input is the flag
  and the (target, callData) pairs and whose output is a list of (success, returnData) pairs.
  \<^verbatim>\<open>UnpackIntoInterface\<close> replaces the slice it is given by one of the decoded length, so the
  decoded list may be shorter or longer than the slice \<^verbatim>\<open>FlexibleCall\<close> allocates.
\<close>

record ('v, 'o) ABI =
  Pack :: "string \<Rightarrow> 'v list \<Rightarrow> error + bytes"
  UnpackIntoInterface :: "'o \<Rightarrow> string \<Rightarrow> bytes \<Rightarrow> error option"

record MulticallABI =
  Pack_tryAggregate :: "bool \<Rightarrow> (address \<times> bytes) list \<Rightarrow> error + bytes"
  Unpack_tryAggregate :: "bytes \<Rightarrow> error + CallResponse list"

text \<open>
  What a caller can observe of one execution besides its return value: the transport
  invocations and the invocations of the descriptors' decode steps (each writes to a
  location the caller owns), in the order they happen.
\<close>

datatype event = EvCallContract CallMsg "int option" | EvUnpackFunc nat bytes

fun is_transport :: "event \<Rightarrow> bool" where
  "is_transport (EvCallContract m n) = True"
| "is_transport (EvUnpackFunc i d) = False"

definition transport_invocations :: "event list \<Rightarrow> nat" where
  "transport_invocations tr = length (filter is_transport tr)"

fun decoded_positions :: "event list \<Rightarrow> nat list" where
  "decoded_positions [] = []"
| "decoded_positions (EvCallContract m n # tr) = decoded_positions tr"
| "decoded_positions (EvUnpackFunc i d # tr) = i # decoded_positions tr"

definition NewMultiCaller :: "IContractCaller \<Rightarrow> address \<Rightarrow> MultiCaller" where
  [simp]: "NewMultiCaller cl multicallerAddress =
     \<lparr>client = cl, contractAddress = multicallerAddress, calls = []\<rparr>"

text \<open>
  \<^verbatim>\<open>AddCall\<close> appends a descriptor whose encode step packs the arguments when it is run, and
  whose decode step unpacks into the caller's output. \<open>hex\<close> is \<^verbatim>\<open>common.Address.Hex\<close>.
\<close>

definition AddCall ::
  "(address \<Rightarrow> string) \<Rightarrow> address \<Rightarrow> ('v, 'o) ABI \<Rightarrow> 'o \<Rightarrow> string \<Rightarrow> 'v list \<Rightarrow>
   MultiCaller \<Rightarrow> MultiCaller" where
  [simp]: "AddCall hex addr abi output method args mc =
     (let call = \<lparr>Target = addr, CallData = [], Method = method,
                  PackFunc = (\<lambda>_. case Pack abi method args of
                       Inl err \<Rightarrow> Inl (Errorf_w (''error packing data for call ['' @ method
                                     @ ''] on contract '' @ hex addr @ '': '') err)
                     | Inr callData \<Rightarrow> Inr callData),
                  UnpackFunc = (\<lambda>rawData. UnpackIntoInterface abi output method rawData)\<rparr>
      in mc\<lparr>calls := calls mc @ [call]\<rparr>)"

text \<open>
  The first loop of \<^verbatim>\<open>FlexibleCall\<close>: \<^verbatim>\<open>for i, call := range mc.calls\<close>, running each encode
  step and storing its bytes in \<^verbatim>\<open>mc.calls[i].CallData\<close>. The first failure returns with the
  descriptors before it already updated.
\<close>

fun pack_loop :: "nat \<Rightarrow> Call list \<Rightarrow> Call list \<Rightarrow> error option \<times> Call list" where
  "pack_loop i [] cs = (None, cs)"
| "pack_loop i (call # rest) cs =
     (case PackFunc call () of
        Inl err \<Rightarrow> (Some err, cs)
      | Inr callData \<Rightarrow> pack_loop (Suc i) rest (cs[i := (cs ! i)\<lparr>CallData := callData\<rparr>]))"

text \<open>
  The second loop: \<^verbatim>\<open>for i, c := range mc.calls\<close>, reading \<^verbatim>\<open>results[i]\<close> with no check of
  \<^verbatim>\<open>len(results)\<close>, running the decode step of a successful entry and storing the flag in
  \<^verbatim>\<open>res[i]\<close>.
\<close>

datatype loop_result = Done "bool list" | Failed error | Crashed panic

fun unpack_loop ::
  "(address \<Rightarrow> string) \<Rightarrow> nat \<Rightarrow> Call list \<Rightarrow> CallResponse list \<Rightarrow> bool list \<Rightarrow> event list \<Rightarrow>
   loop_result \<times> event list" where
  "unpack_loop hex i [] results res tr = (Done res, tr)"
| "unpack_loop hex i (c # rest) results res tr =
     (if length results \<le> i
      then (Crashed (IndexOutOfRange (int i) (int (length results))), tr)
      else
        let callSuccess = Status (results ! i) in
        if callSuccess then
          (case UnpackFunc c (ReturnData (results ! i)) of
             Some err \<Rightarrow>
               (Failed (Errorf_w (''error unpacking response for contract '' @ hex (Target c)
                          @ '', method '' @ Method c @ '': '') err),
                tr @ [EvUnpackFunc i (ReturnData (results ! i))])
           | None \<Rightarrow>
               unpack_loop hex (Suc i) rest results (res[i := callSuccess])
                 (tr @ [EvUnpackFunc i (ReturnData (results ! i))]))
        else unpack_loop hex (Suc i) rest results (res[i := callSuccess]) tr)"

text \<open>
  \<^verbatim>\<open>FlexibleCall(requireSuccess, opts)\<close>. The result is the outcome, the MultiCaller as the
  call leaves it, and the trace. \<open>Inl err\<close> is the return \<^verbatim>\<open>(nil, err)\<close>, \<open>Inr res\<close> the return
  \<^verbatim>\<open>(res, nil)\<close>. \<open>multicallAbi\<close> is the package's parsed ABI of the Multicall v2 contract.
\<close>

definition FlexibleCall ::
  "MulticallABI \<Rightarrow> (address \<Rightarrow> string) \<Rightarrow> bool \<Rightarrow> CallOpts option \<Rightarrow> MultiCaller \<Rightarrow>
   (error + bool list) outcome \<times> MultiCaller \<times> event list" where
  "FlexibleCall multicallAbi hex requireSuccess opts mc =
     (if length (calls mc) = 0 then (Returned (Inr []), mc, [])
      else
        let res = replicate (length (calls mc)) False in
        (case pack_loop 0 (calls mc) (calls mc) of
           (Some err, cs) \<Rightarrow> (Returned (Inl err), mc\<lparr>calls := cs\<rparr>, [])
         | (None, cs) \<Rightarrow>
             (let mc = mc\<lparr>calls := cs\<rparr> in
              (case Pack_tryAggregate multicallAbi requireSuccess
                      (map (\<lambda>c. (Target c, CallData c)) (calls mc)) of
                 Inl err \<Rightarrow>
                   (Returned (Inl (Errorf_w ''error packing aggregated call data: '' err)), mc, [])
               | Inr callData \<Rightarrow>
                   (let blockNumber = blockNumber_of opts;
                        msg = \<lparr>To = MultiCaller.contractAddress mc, Data = callData\<rparr>;
                        tr = [EvCallContract msg blockNumber]
                    in
                    (case MultiCaller.client mc msg blockNumber of
                       Inl err \<Rightarrow>
                         (Returned (Inl (Errorf_w ''error calling multicall contract: '' err)),
                          mc, tr)
                     | Inr resp \<Rightarrow>
                         (case Unpack_tryAggregate multicallAbi resp of
                            Inl err \<Rightarrow>
                              (Returned (Inl (Errorf_w
                                 ''error unpacking aggregated response data: '' err)), mc, tr)
                          | Inr results \<Rightarrow>
                              (case unpack_loop hex 0 (calls mc) results res tr of
                                 (Crashed p, tr') \<Rightarrow> (Panicked p, mc, tr')
                               | (Failed err, tr') \<Rightarrow>
                                   (Returned (Inl err), mc\<lparr>calls := []\<rparr>, tr')
                               | (Done res', tr') \<Rightarrow>
                                   (Returned (Inr res'), mc\<lparr>calls := []\<rparr>, tr')))))))))"

text \<open>
  Three notions the statements about \<^verbatim>\<open>FlexibleCall\<close> use. \<open>packed_pairs\<close> is the argument of
  the aggregate pack once every encode step has succeeded: each target with the bytes its
  encode step gives. \<open>decode_events\<close> lists the decode steps run for the positions from \<open>i\<close> up
  to \<open>j\<close>: those whose entry is successful, in order. \<open>flags_written\<close> is the flag slice after
  the positions from \<open>i\<close> have been stored for \<open>n\<close> entries.
\<close>

definition packed_pairs :: "Call list \<Rightarrow> (address \<times> bytes) list" where
  "packed_pairs cs = map (\<lambda>c. (Target c, case PackFunc c () of Inl err \<Rightarrow> [] | Inr d \<Rightarrow> d)) cs"

definition decode_events :: "CallResponse list \<Rightarrow> nat \<Rightarrow> nat \<Rightarrow> event list" where
  "decode_events results i j =
     map (\<lambda>k. EvUnpackFunc k (ReturnData (results ! k)))
       (filter (\<lambda>k. Status (results ! k)) [i..<j])"

definition flags_written :: "bool list \<Rightarrow> CallResponse list \<Rightarrow> nat \<Rightarrow> nat \<Rightarrow> bool list" where
  "flags_written res results i n =
     take i res @ map Status (take n (drop i results)) @ drop (i + n) res"

section \<open>BalanceBatcher\<close>

text \<open>
  The codec of the balance-checker contract, specialised to \<^verbatim>\<open>balances(users, tokens)\<close>: the
  pack of the two address lists and the unpack of the \<^verbatim>\<open>uint256[]\<close> answer into a slice of
  \<^verbatim>\<open>*big.Int\<close>, of whatever length the answer has.
\<close>

record BalancesABI =
  Pack_balances :: "address list \<Rightarrow> address list \<Rightarrow> error + bytes"
  Unpack_balances :: "bytes \<Rightarrow> error + int option list"

record BalanceBatcher =
  BalanceBatchSize :: int
  ThreadLimit :: int
  client :: IContractCaller
  contractAddress :: address
  abi :: BalancesABI

text \<open>
  \<^verbatim>\<open>NewBalanceBatcher\<close>, given the parsed ABI of the package (the constant ABI text always
  parses).
\<close>

definition NewBalanceBatcher ::
  "BalancesABI \<Rightarrow> IContractCaller \<Rightarrow> address \<Rightarrow> int \<Rightarrow> int \<Rightarrow> BalanceBatcher" where
  [simp]: "NewBalanceBatcher balanceBatcherAbi cl addr balanceBatchSize threadLimit =
     \<lparr>BalanceBatchSize = balanceBatchSize, ThreadLimit = threadLimit, client = cl,
      contractAddress = addr, abi = balanceBatcherAbi\<rparr>"

text \<open>The \<^verbatim>\<open>%d\<close> verb of \<^verbatim>\<open>fmt.Errorf\<close> on a length: its decimal digits.\<close>

definition digit_char :: "nat \<Rightarrow> char" where
  "digit_char d = ''0123456789'' ! d"

function show_nat :: "nat \<Rightarrow> string" where
  "show_nat n = (if n < 10 then [digit_char n] else show_nat (n div 10) @ [digit_char (n mod 10)])"
  by pat_completeness auto
termination
  by (relation "measure id") auto

text \<open>
  The slice expression \<^verbatim>\<open>xs[lo:hi]\<close> on Go's \<^verbatim>\<open>int\<close>: it panics unless
  \<open>0 \<le> lo \<le> hi \<le> cap(xs)\<close>. The loop below never asks for more than \<^verbatim>\<open>len(xs)\<close>, so the
  capacity is taken to be the length.
\<close>

definition slice :: "'a list \<Rightarrow> int \<Rightarrow> int \<Rightarrow> 'a list outcome" where
  "slice xs lo hi =
     (if 0 \<le> lo \<and> lo \<le> hi \<and> hi \<le> int (length xs)
      then Returned (take (nat hi - nat lo) (drop (nat lo) xs))
      else Panicked (SliceBoundsOutOfRange lo hi))"

text \<open>
  The last loop of a chunk unit: \<^verbatim>\<open>for j, balance := range subBalances\<close>, which stops at the
  first nil balance and otherwise stores \<^verbatim>\<open>balances[i+j] = balance\<close>. \<open>str\<close> is
  \<^verbatim>\<open>common.Address.String\<close>. The loop runs after the length check, so \<^verbatim>\<open>subAddresses[j]\<close>
  is in range; so is \<^verbatim>\<open>balances[i+j]\<close>, since a unit ends within the address list
  (\<open>chunk_loop_in_range\<close> below).
\<close>

fun store_balances ::
  "(address \<Rightarrow> string) \<Rightarrow> address list \<Rightarrow> nat \<Rightarrow> nat \<Rightarrow> int option list \<Rightarrow> int option list \<Rightarrow>
   error option \<times> int option list" where
  "store_balances str subAddresses i j [] balances = (None, balances)"
| "store_balances str subAddresses i j (balance # rest) balances =
     (case balance of
        None \<Rightarrow>
          (Some (Errorf (''received nil balance for address '' @ str (subAddresses ! j))), balances)
      | Some v \<Rightarrow> store_balances str subAddresses i (Suc j) rest (balances[i + j := Some v]))"

text \<open>
  The body of the function handed to \<^verbatim>\<open>wg.Go\<close> for the chunk at offset \<open>i\<close> with the
  addresses \<open>subAddresses\<close>: pack, call, unpack, the two sanity checks, the stores. It returns
  the error of the unit and the shared \<^verbatim>\<open>balances\<close> slice as the unit leaves it.
\<close>

definition balance_unit ::
  "(address \<Rightarrow> string) \<Rightarrow> BalanceBatcher \<Rightarrow> CallOpts option \<Rightarrow> nat \<times> address list \<Rightarrow>
   int option list \<Rightarrow> error option \<times> int option list" where
  "balance_unit str b opts u balances =
     (case u of (i, subAddresses) \<Rightarrow>
        let tokens = [0] in
        case Pack_balances (abi b) subAddresses tokens of
          Inl err \<Rightarrow> (Some (Errorf_w ''error creating calldata for balances: '' err), balances)
        | Inr callData \<Rightarrow>
            (case BalanceBatcher.client b \<lparr>To = BalanceBatcher.contractAddress b, Data = callData\<rparr> (blockNumber_of opts) of
               Inl err \<Rightarrow> (Some (Errorf_w ''error calling balances: '' err), balances)
             | Inr response \<Rightarrow>
                 (case Unpack_balances (abi b) response of
                    Inl err \<Rightarrow>
                      (Some (Errorf_w ''error unpacking balances response: '' err), balances)
                  | Inr subBalances \<Rightarrow>
                      if length subBalances \<noteq> length subAddresses
                      then (Some (Errorf (''received '' @ show_nat (length subBalances)
                                  @ '' balances which mismatches query batch size ''
                                  @ show_nat (length subAddresses))), balances)
                      else store_balances str subAddresses i 0 subBalances balances)))"

text \<open>
  The loop \<^verbatim>\<open>for i := 0; i < count; i += b.BalanceBatchSize\<close>. It may run forever, so it
  takes fuel, and \<open>None\<close> is the loop that has not finished. Each round computes \<^verbatim>\<open>max\<close> and
  calls \<^verbatim>\<open>wg.Go\<close>:
  \<^item> with a thread limit of zero (\<^verbatim>\<open>wg.SetLimit(0)\<close>) the errgroup admits no goroutine and
    \<^verbatim>\<open>wg.Go\<close> blocks for ever, which is \<open>None\<close> as well;
  \<^item> the unit's first statement, \<^verbatim>\<open>addresses[i:max]\<close>, depends on nothing but \<open>i\<close> and
    \<open>max\<close>, and a panic in a goroutine ends the whole process, so the slice is taken when
    the unit is spawned and a panic of it is the outcome of the call;
  \<^item> otherwise the unit is recorded, with its offset and its addresses, in spawn order.
  Go's \<^verbatim>\<open>int\<close> has 64 bits; the model uses unbounded integers. The first round adds the
  batch size to zero. A second round is reached only with a batch size of zero, where \<open>i\<close>
  stays zero, or with a positive one, where from the second round on the batch size is
  at most \<open>i\<close>, so \<open>i + BalanceBatchSize\<close> stays below twice the length of the address
  slice, far from \<open>2^63\<close>.
\<close>

fun chunk_loop ::
  "nat \<Rightarrow> BalanceBatcher \<Rightarrow> address list \<Rightarrow> int \<Rightarrow> (nat \<times> address list) list \<Rightarrow>
   (nat \<times> address list) list outcome option" where
  "chunk_loop 0 b addresses i units = None"
| "chunk_loop (Suc fuel) b addresses i units =
     (let count = int (length addresses) in
      if i < count then
        let max = (if i + BalanceBatchSize b > count then count else i + BalanceBatchSize b) in
        if ThreadLimit b = 0 then None
        else
          (case slice addresses i max of
             Panicked p \<Rightarrow> Some (Panicked p)
           | Returned subAddresses \<Rightarrow>
               chunk_loop fuel b addresses (i + BalanceBatchSize b) (units @ [(nat i, subAddresses)]))
      else Some (Returned units))"

text \<open>
  The units run concurrently. They read the addresses, which nobody writes, and each
  writes only the cells of \<^verbatim>\<open>balances\<close> of its own chunk, so the model runs them one after
  the other, in the order \<open>sched\<close> in which they finish: a list of positions of the spawned
  units, chosen by the scheduler. \<^verbatim>\<open>errgroup\<close> keeps the first error returned (\<^verbatim>\<open>errOnce\<close>)
  and lets every other unit finish; \<^verbatim>\<open>wg.Wait\<close> returns that error.
\<close>

fun run_units ::
  "(address \<Rightarrow> string) \<Rightarrow> BalanceBatcher \<Rightarrow> CallOpts option \<Rightarrow> (nat \<times> address list) list \<Rightarrow>
   error option \<Rightarrow> int option list \<Rightarrow> error option \<times> int option list" where
  "run_units str b opts [] err balances = (err, balances)"
| "run_units str b opts (u # us) err balances =
     (case balance_unit str b opts u balances of
        (e, balances') \<Rightarrow>
          run_units str b opts us (case err of None \<Rightarrow> e | Some first \<Rightarrow> Some first) balances')"

text \<open>
  \<^verbatim>\<open>GetEthBalances(addresses, opts)\<close>. \<open>None\<close>: the call does not return. \<open>Inl err\<close> is the
  return \<^verbatim>\<open>(nil, err)\<close>, \<open>Inr balances\<close> the return \<^verbatim>\<open>(balances, nil)\<close>.
\<close>

definition GetEthBalances ::
  "nat \<Rightarrow> (address \<Rightarrow> string) \<Rightarrow> nat list \<Rightarrow> BalanceBatcher \<Rightarrow> address list \<Rightarrow> CallOpts option \<Rightarrow>
   (error + int option list) outcome option" where
  "GetEthBalances fuel str sched b addresses opts =
     (let count = length addresses;
          balances = replicate count None
      in case chunk_loop fuel b addresses 0 [] of
           None \<Rightarrow> None
         | Some (Panicked p) \<Rightarrow> Some (Panicked p)
         | Some (Returned units) \<Rightarrow>
             (case run_units str b opts (map (\<lambda>k. units ! k) sched) None balances of
                (Some err, balances') \<Rightarrow>
                  Some (Returned (Inl (Errorf_w ''error getting balances: '' err)))
              | (None, balances') \<Rightarrow> Some (Returned (Inr balances'))))"

text \<open>
  What the statements about \<^verbatim>\<open>GetEthBalances\<close> speak of. With a positive batch size \<open>C\<close>
  the loop spawns \<open>chunk_count C N\<close> units for \<open>N\<close> addresses, the unit \<open>k\<close> being the
  offset \<open>k * C\<close> with the addresses from there, at most \<open>C\<close> of them (this is proved of the
  loop below, not assumed). \<open>unit_error\<close> is the error a unit returns, which does not depend
  on the contents of \<^verbatim>\<open>balances\<close>; \<open>decoded_chunk\<close> is the list a chunk's response decodes
  to when its pack, call and unpack succeed.
\<close>

definition chunk_count :: "nat \<Rightarrow> nat \<Rightarrow> nat" where
  "chunk_count C N = (N + C - 1) div C"

definition chunk_at :: "nat \<Rightarrow> address list \<Rightarrow> nat \<Rightarrow> nat \<times> address list" where
  "chunk_at C addresses k = (k * C, take C (drop (k * C) addresses))"

definition chunk_units :: "nat \<Rightarrow> address list \<Rightarrow> (nat \<times> address list) list" where
  "chunk_units C addresses = map (chunk_at C addresses) [0..<chunk_count C (length addresses)]"

definition unit_error ::
  "(address \<Rightarrow> string) \<Rightarrow> BalanceBatcher \<Rightarrow> CallOpts option \<Rightarrow> nat \<times> address list \<Rightarrow> error option" where
  "unit_error str b opts u = fst (balance_unit str b opts u [])"

definition decoded_chunk ::
  "BalanceBatcher \<Rightarrow> CallOpts option \<Rightarrow> address list \<Rightarrow> int option list option" where
  "decoded_chunk b opts subAddresses =
     (case Pack_balances (abi b) subAddresses [0] of
        Inl err \<Rightarrow> None
      | Inr callData \<Rightarrow>
          (case BalanceBatcher.client b \<lparr>To = BalanceBatcher.contractAddress b, Data = callData\<rparr>
                  (blockNumber_of opts) of
             Inl err \<Rightarrow> None
           | Inr response \<Rightarrow>
               (case Unpack_balances (abi b) response of
                  Inl err \<Rightarrow> None
                | Inr subBalances \<Rightarrow> Some subBalances)))"

section \<open>Stubs for concrete runs\<close>

text \<open>
  A codec and three transports for running the model on concrete queues. The stub codec
  packs a call to the concatenation of its arguments and refuses the method \<open>missing\<close>;
  it refuses to unpack the return data \<open>[255]\<close>. The stub Multicall contract answers one
  byte per call: zero for a call that failed. The echo transport returns the call data,
  the short one drops its last byte, the failing one refuses the connection.
\<close>

definition stub_hex :: "address \<Rightarrow> string" where
  [simp]: "stub_hex a = (if a = 1 then ''0xA1'' else if a = 2 then ''0xA2'' else ''0xA3'')"

definition stub_abi :: "(bytes, nat) ABI" where
  [simp]: "stub_abi =
     \<lparr>Pack = (\<lambda>method args. if method = ''missing'' then Inl (Errorf ''abi: method not found'')
                             else Inr (concat args)),
      UnpackIntoInterface = (\<lambda>output method data.
         if data = [255] then Some (Errorf ''abi: improperly formatted output'') else None)\<rparr>"

definition stub_multicallAbi :: MulticallABI where
  [simp]: "stub_multicallAbi =
     \<lparr>Pack_tryAggregate = (\<lambda>requireSuccess pairs. Inr (concat (map snd pairs))),
      Unpack_tryAggregate = (\<lambda>resp. Inr (map (\<lambda>x. \<lparr>Status = (x \<noteq> 0), ReturnData = [x]\<rparr>) resp))\<rparr>"

definition echo_client :: IContractCaller where
  [simp]: "echo_client msg blockNumber = Inr (Data msg)"

definition short_client :: IContractCaller where
  [simp]: "short_client msg blockNumber = Inr (butlast (Data msg))"

definition failing_client :: IContractCaller where
  [simp]: "failing_client msg blockNumber = Inl (Errorf ''connection refused'')"

definition three_calls :: "string \<Rightarrow> 8 word \<Rightarrow> IContractCaller \<Rightarrow> MultiCaller" where
  [simp]: "three_calls method arg cl =
     AddCall stub_hex 3 stub_abi 2 ''c'' [[3]]
       (AddCall stub_hex 2 stub_abi 1 method [[arg]]
          (AddCall stub_hex 1 stub_abi 0 ''a'' [[1]] (NewMultiCaller cl 9)))"

text \<open>
  For the balance batcher: the stub codec packs each address to its low byte and decodes
  the byte \<open>x\<close> to the balance \<open>100 + x\<close>, or to nil for the byte 255. The ledger transport
  echoes the call data; it refuses a call that holds the address 254 and drops the last
  entry of one that holds 253.
\<close>

definition stub_str :: "address \<Rightarrow> string" where
  [simp]: "stub_str a = (if a = 1 then ''0xA1'' else if a = 2 then ''0xA2'' else if a = 3 then ''0xA3''
                 else if a = 255 then ''0xFF'' else ''0x00'')"

definition stub_balancesAbi :: BalancesABI where
  [simp]: "stub_balancesAbi =
     \<lparr>Pack_balances = (\<lambda>users tokens.
         if tokens = [0] then Inr (map ucast users) else Inl (Errorf ''abi: unexpected token'')),
      Unpack_balances = (\<lambda>response.
         Inr (map (\<lambda>x. if x = 255 then None else Some (100 + uint x)) response))\<rparr>"

definition ledger_client :: IContractCaller where
  [simp]: "ledger_client msg blockNumber =
     (if 254 \<in> set (Data msg) then Inl (Errorf ''execution reverted'')
      else if 253 \<in> set (Data msg) then Inr (butlast (Data msg))
      else Inr (Data msg))"

definition stub_batcher :: "int \<Rightarrow> int \<Rightarrow> BalanceBatcher" where
  [simp]: "stub_batcher batchSize limit =
     NewBalanceBatcher stub_balancesAbi ledger_client 7 batchSize limit"

section \<open>Properties of FlexibleCall\<close>

subsection \<open>The encode loop\<close>

text \<open>
  The encode loop changes nothing of a descriptor but its call data, fails with the error
  of the first encode step that fails, and otherwise leaves the pairs the aggregate pack
  is given.
\<close>

lemma pack_loop_length: "length (snd (pack_loop i rest cs)) = length cs"
  by (induction rest arbitrary: i cs) (auto split: sum.splits)

lemma update_CallData_map:
  assumes "\<And>c d. f (c\<lparr>CallData := d\<rparr>) = f c"
  shows "map f (cs[i := (cs ! i)\<lparr>CallData := d\<rparr>]) = map f cs"
proof (cases "i < length cs")
  case True
  then show ?thesis by (simp add: map_update assms list_update_same_conv)
next
  case False
  then show ?thesis by (simp add: list_update_beyond)
qed

lemma pack_loop_map:
  assumes "\<And>c d. f (c\<lparr>CallData := d\<rparr>) = f c"
  shows "map f (snd (pack_loop i rest cs)) = map f cs"
proof (induction rest arbitrary: i cs)
  case Nil
  then show ?case by simp
next
  case (Cons call rest)
  show ?case
  proof (cases "PackFunc call ()")
    case (Inl e)
    then show ?thesis by simp
  next
    case (Inr d)
    then show ?thesis
      using Cons.IH [of "Suc i" "cs[i := (cs ! i)\<lparr>CallData := d\<rparr>]"]
      by (simp add: update_CallData_map [of f, OF assms])
  qed
qed

lemma pack_loop_frame:
  assumes "j < length cs"
  shows "Target (snd (pack_loop i rest cs) ! j) = Target (cs ! j)"
    and "Method (snd (pack_loop i rest cs) ! j) = Method (cs ! j)"
    and "UnpackFunc (snd (pack_loop i rest cs) ! j) = UnpackFunc (cs ! j)"
proof -
  have "map Target (snd (pack_loop i rest cs)) ! j = map Target cs ! j"
    by (simp add: pack_loop_map)
  then show "Target (snd (pack_loop i rest cs) ! j) = Target (cs ! j)"
    using assms by (simp add: pack_loop_length)
  have "map Method (snd (pack_loop i rest cs)) ! j = map Method cs ! j"
    by (simp add: pack_loop_map)
  then show "Method (snd (pack_loop i rest cs) ! j) = Method (cs ! j)"
    using assms by (simp add: pack_loop_length)
  have "map UnpackFunc (snd (pack_loop i rest cs)) ! j = map UnpackFunc cs ! j"
    by (simp add: pack_loop_map)
  then show "UnpackFunc (snd (pack_loop i rest cs) ! j) = UnpackFunc (cs ! j)"
    using assms by (simp add: pack_loop_length)
qed

lemma pack_loop_ok:
  "\<forall>c\<in>set rest. \<not> isl (PackFunc c ()) \<Longrightarrow> fst (pack_loop i rest cs) = None"
  by (induction rest arbitrary: i cs) (auto split: sum.splits)

lemma pack_loop_first_failure:
  "\<forall>d\<in>set pre. \<not> isl (PackFunc d ()) \<Longrightarrow> PackFunc c () = Inl e \<Longrightarrow>
   fst (pack_loop i (pre @ c # post) cs) = Some e"
  by (induction pre arbitrary: i cs) (auto split: sum.splits)

lemma pack_loop_result:
  assumes "\<forall>c\<in>set rest. \<not> isl (PackFunc c ())" "drop i cs = rest"
  shows "map (\<lambda>c. (Target c, CallData c)) (snd (pack_loop i rest cs)) =
         map (\<lambda>c. (Target c, CallData c)) (take i cs) @ packed_pairs rest"
  using assms
proof (induction rest arbitrary: i cs)
  case Nil
  then show ?case by (simp add: packed_pairs_def)
next
  case (Cons c rest)
  from Cons.prems(2) have i: "i < length cs"
    by (metis drop_all list.distinct(1) not_less)
  from Cons.prems(2) i have ci: "cs ! i = c" and dr: "drop (Suc i) cs = rest"
    by (metis Cons_nth_drop_Suc list.inject)+
  from Cons.prems(1) obtain d where d: "PackFunc c () = Inr d"
    by (cases "PackFunc c ()") auto
  let ?cs = "cs[i := (cs ! i)\<lparr>CallData := d\<rparr>]"
  have "drop (Suc i) ?cs = rest" using dr by simp
  from Cons.IH [OF _ this] Cons.prems(1)
  have "map (\<lambda>c. (Target c, CallData c)) (snd (pack_loop (Suc i) rest ?cs)) =
         map (\<lambda>c. (Target c, CallData c)) (take (Suc i) ?cs) @ packed_pairs rest" by simp
  moreover have "take (Suc i) ?cs = take i cs @ [c\<lparr>CallData := d\<rparr>]"
    using i ci by (simp add: take_Suc_conv_app_nth)
  ultimately show ?case using d by (simp add: packed_pairs_def)
qed

lemma pack_loop_all_ok:
  assumes "\<forall>c\<in>set cs. \<not> isl (PackFunc c ())"
  shows "\<exists>cs'. pack_loop 0 cs cs = (None, cs') \<and> length cs' = length cs
           \<and> map (\<lambda>c. (Target c, CallData c)) cs' = packed_pairs cs
           \<and> (\<forall>j<length cs. Target (cs' ! j) = Target (cs ! j) \<and> Method (cs' ! j) = Method (cs ! j)
                 \<and> UnpackFunc (cs' ! j) = UnpackFunc (cs ! j))"
proof -
  obtain r cs' where p: "pack_loop 0 cs cs = (r, cs')" by (cases "pack_loop 0 cs cs")
  have "r = None" using pack_loop_ok [OF assms, of 0 cs] p by simp
  moreover have "length cs' = length cs" using pack_loop_length [of 0 cs cs] p by simp
  moreover have "map (\<lambda>c. (Target c, CallData c)) cs' = packed_pairs cs"
    using pack_loop_result [OF assms, of 0 cs] p by simp
  moreover have "\<forall>j<length cs. Target (cs' ! j) = Target (cs ! j) \<and> Method (cs' ! j) = Method (cs ! j)
                 \<and> UnpackFunc (cs' ! j) = UnpackFunc (cs ! j)"
    using pack_loop_frame [of _ cs 0 cs] p by simp
  ultimately show ?thesis using p by simp
qed

subsection \<open>The decode loop\<close>

text \<open>
  As long as the entries are there and the decode steps succeed, the decode loop runs
  through a prefix of the queue, storing the flags and running the decode steps of the
  successful entries. What it meets after the prefix decides its result: the end of the
  queue, a decode step that fails, or an entry that is missing.
\<close>

lemma decode_events_Cons:
  "i < j \<Longrightarrow> decode_events results i j =
     (if Status (results ! i) then [EvUnpackFunc i (ReturnData (results ! i))] else [])
     @ decode_events results (Suc i) j"
  by (simp add: decode_events_def upt_conv_Cons)

lemma decode_events_empty: "decode_events results i i = []"
  by (simp add: decode_events_def)

lemma flags_written_0: "flags_written res results i 0 = res"
  by (simp add: flags_written_def)

lemma flags_written_step:
  assumes "i < length results" "i < length res"
  shows "flags_written (res[i := Status (results ! i)]) results (Suc i) n
         = flags_written res results i (Suc n)"
  using assms
  by (simp add: flags_written_def take_Suc_conv_app_nth Cons_nth_drop_Suc [symmetric])

lemma unpack_loop_prefix:
  assumes "i + length pre \<le> length results" "i + length pre \<le> length res"
    and "\<forall>k<length pre. Status (results ! (i + k)) \<longrightarrow>
            UnpackFunc (pre ! k) (ReturnData (results ! (i + k))) = None"
  shows "unpack_loop hex i (pre @ post) results res tr =
         unpack_loop hex (i + length pre) post results
           (flags_written res results i (length pre))
           (tr @ decode_events results i (i + length pre))"
  using assms
proof (induction pre arbitrary: i res tr)
  case Nil
  then show ?case by (simp add: decode_events_empty flags_written_0)
next
  case (Cons c pre)
  have i: "i < length results" "i < length res" using Cons.prems by auto
  have len: "Suc i + length pre \<le> length results"
    "Suc i + length pre \<le> length (res[i := Status (results ! i)])"
    using Cons.prems by auto
  have ih_pre: "\<forall>k<length pre. Status (results ! (Suc i + k)) \<longrightarrow>
            UnpackFunc (pre ! k) (ReturnData (results ! (Suc i + k))) = None"
  proof (intro allI impI)
    fix k assume k: "k < length pre" and s: "Status (results ! (Suc i + k))"
    from Cons.prems(3) [rule_format, of "Suc k"] k s show
      "UnpackFunc (pre ! k) (ReturnData (results ! (Suc i + k))) = None" by simp
  qed
  have c0: "Status (results ! i) \<Longrightarrow> UnpackFunc c (ReturnData (results ! i)) = None"
    using Cons.prems(3) [rule_format, of 0] by simp
  let ?ev = "if Status (results ! i) then [EvUnpackFunc i (ReturnData (results ! i))] else []"
  have "unpack_loop hex i ((c # pre) @ post) results res tr =
        unpack_loop hex (Suc i) (pre @ post) results (res[i := Status (results ! i)]) (tr @ ?ev)"
    using i c0 by simp
  also have "\<dots> = unpack_loop hex (Suc i + length pre) post results
           (flags_written (res[i := Status (results ! i)]) results (Suc i) (length pre))
           ((tr @ ?ev) @ decode_events results (Suc i) (Suc i + length pre))"
    by (rule Cons.IH [OF len ih_pre])
  also have "flags_written (res[i := Status (results ! i)]) results (Suc i) (length pre)
         = flags_written res results i (length (c # pre))"
    using flags_written_step [OF i] by simp
  also have "(tr @ ?ev) @ decode_events results (Suc i) (Suc i + length pre)
         = tr @ decode_events results i (i + length (c # pre))"
    using decode_events_Cons [of i "i + length (c # pre)" results] by simp
  also have "Suc i + length pre = i + length (c # pre)" by simp
  finally show ?case .
qed



lemma unpack_loop_done:
  assumes "length cs \<le> length results"
    and "\<forall>k<length cs. Status (results ! k) \<longrightarrow> UnpackFunc (cs ! k) (ReturnData (results ! k)) = None"
  shows "unpack_loop hex 0 cs results (replicate (length cs) False) tr =
           (Done (map Status (take (length cs) results)), tr @ decode_events results 0 (length cs))"
proof -
  have "unpack_loop hex 0 (cs @ []) results (replicate (length cs) False) tr =
        unpack_loop hex (0 + length cs) [] results
          (flags_written (replicate (length cs) False) results 0 (length cs))
          (tr @ decode_events results 0 (0 + length cs))"
    by (rule unpack_loop_prefix) (use assms in auto)
  then show ?thesis by (simp add: flags_written_def)
qed

lemma split_at:
  assumes "k < length cs"
  obtains pre post where "cs = pre @ cs ! k # post" "length pre = k"
proof
  show "cs = take k cs @ cs ! k # drop (Suc k) cs"
    using assms by (simp add: id_take_nth_drop [symmetric])
  show "length (take k cs) = k" using assms by simp
qed

lemma unpack_loop_reach:
  assumes "k < length cs" "k \<le> length results" "n = length cs"
    and "\<forall>j<k. Status (results ! j) \<longrightarrow> UnpackFunc (cs ! j) (ReturnData (results ! j)) = None"
  obtains post where "length post < length cs"
    "unpack_loop hex 0 cs results (replicate n False) tr =
       unpack_loop hex k (cs ! k # post) results
         (flags_written (replicate n False) results 0 k) (tr @ decode_events results 0 k)"
proof -
  from split_at [OF assms(1)] obtain pre post where
    cs: "cs = pre @ cs ! k # post" and len: "length pre = k" by blast
  have pre: "\<forall>j<length pre. Status (results ! (0 + j)) \<longrightarrow>
               UnpackFunc (pre ! j) (ReturnData (results ! (0 + j))) = None"
  proof (intro allI impI)
    fix j assume j: "j < length pre" and s: "Status (results ! (0 + j))"
    have "cs ! j = pre ! j" using j by (subst cs) (simp add: nth_append)
    then show "UnpackFunc (pre ! j) (ReturnData (results ! (0 + j))) = None"
      using assms(4) j s len by auto
  qed
  have "unpack_loop hex 0 (pre @ cs ! k # post) results (replicate n False) tr =
        unpack_loop hex (0 + length pre) (cs ! k # post) results
          (flags_written (replicate n False) results 0 (length pre))
          (tr @ decode_events results 0 (0 + length pre))"
    by (rule unpack_loop_prefix) (use assms len pre in auto)
  then have "unpack_loop hex 0 cs results (replicate n False) tr =
       unpack_loop hex k (cs ! k # post) results
         (flags_written (replicate n False) results 0 k) (tr @ decode_events results 0 k)"
    unfolding len using cs by simp
  moreover have "length post < length cs" by (subst cs) simp
  ultimately show ?thesis using that by blast
qed

lemma unpack_loop_failed:
  assumes "k < length cs" "k < length results" "n = length cs"
    and "\<forall>j<k. Status (results ! j) \<longrightarrow> UnpackFunc (cs ! j) (ReturnData (results ! j)) = None"
    and "Status (results ! k)" "UnpackFunc (cs ! k) (ReturnData (results ! k)) = Some cause"
  shows "unpack_loop hex 0 cs results (replicate n False) tr =
           (Failed (Errorf_w (''error unpacking response for contract '' @ hex (Target (cs ! k))
                          @ '', method '' @ Method (cs ! k) @ '': '') cause),
            tr @ decode_events results 0 (Suc k))"
proof -
  from assms(2) have "k \<le> length results" by simp
  from unpack_loop_reach [OF assms(1) this assms(3,4), of hex tr] obtain post where
    "unpack_loop hex 0 cs results (replicate n False) tr =
       unpack_loop hex k (cs ! k # post) results
         (flags_written (replicate n False) results 0 k) (tr @ decode_events results 0 k)"
    by blast
  moreover have "decode_events results 0 (Suc k) =
      decode_events results 0 k @ [EvUnpackFunc k (ReturnData (results ! k))]"
    using assms(5) by (simp add: decode_events_def)
  ultimately show ?thesis using assms(2,5,6) by simp
qed

lemma unpack_loop_crashed:
  assumes "length results < length cs" "n = length cs"
    and "\<forall>j<length results. Status (results ! j) \<longrightarrow>
           UnpackFunc (cs ! j) (ReturnData (results ! j)) = None"
  shows "unpack_loop hex 0 cs results (replicate n False) tr =
           (Crashed (IndexOutOfRange (int (length results)) (int (length results))),
            tr @ decode_events results 0 (length results))"
proof -
  from unpack_loop_reach [OF assms(1) order_refl assms(2,3), of hex tr] obtain post where
    "unpack_loop hex 0 cs results (replicate n False) tr =
       unpack_loop hex (length results) (cs ! length results # post) results
         (flags_written (replicate n False) results 0 (length results))
         (tr @ decode_events results 0 (length results))"
    by blast
  then show ?thesis by simp
qed

lemma unpack_loop_first_failure:
  assumes i: "i < length cs" "i < length results" "Status (results ! i)"
    and bad: "UnpackFunc (cs ! i) (ReturnData (results ! i)) \<noteq> None"
    and n: "n = length cs"
  shows "\<exists>k cause. k \<le> i \<and> Status (results ! k)
           \<and> UnpackFunc (cs ! k) (ReturnData (results ! k)) = Some cause
           \<and> unpack_loop hex 0 cs results (replicate n False) tr =
               (Failed (Errorf_w (''error unpacking response for contract '' @ hex (Target (cs ! k))
                          @ '', method '' @ Method (cs ! k) @ '': '') cause),
                tr @ decode_events results 0 (Suc k))"
proof -
  let ?P = "\<lambda>j. Status (results ! j) \<and> UnpackFunc (cs ! j) (ReturnData (results ! j)) \<noteq> None"
  define k where "k = (LEAST j. ?P j)"
  have Pi: "?P i" using i bad by simp
  have Pk: "?P k" unfolding k_def using Pi by (rule LeastI)
  have ki: "k \<le> i" unfolding k_def using Pi by (rule Least_le)
  have least: "\<not> ?P j" if "j < k" for j using that unfolding k_def by (rule not_less_Least)
  from Pk obtain cause where cause: "UnpackFunc (cs ! k) (ReturnData (results ! k)) = Some cause"
    by auto
  have "unpack_loop hex 0 cs results (replicate n False) tr =
           (Failed (Errorf_w (''error unpacking response for contract '' @ hex (Target (cs ! k))
                          @ '', method '' @ Method (cs ! k) @ '': '') cause),
            tr @ decode_events results 0 (Suc k))"
  proof (rule unpack_loop_failed)
    show "k < length cs" using ki i by simp
    show "k < length results" using ki i by simp
    show "n = length cs" by (rule n)
    show "\<forall>j<k. Status (results ! j) \<longrightarrow> UnpackFunc (cs ! j) (ReturnData (results ! j)) = None"
      using least by auto
    show "Status (results ! k)" using Pk by simp
    show "UnpackFunc (cs ! k) (ReturnData (results ! k)) = Some cause" by (rule cause)
  qed
  with ki Pk cause show ?thesis by blast
qed

lemma unpack_loop_in_bounds:
  "i + length rest \<le> length results \<Longrightarrow> fst (unpack_loop hex i rest results res tr) \<noteq> Crashed p"
  by (induction rest arbitrary: i res tr) (auto simp: Let_def split: option.splits)



subsection \<open>From the loops to the call\<close>

lemma decoded_positions_map:
  "decoded_positions (map (\<lambda>k. EvUnpackFunc k (f k)) ks) = ks"
  by (induction ks) auto

lemma decoded_positions_decode_events:
  "decoded_positions (decode_events results i j) = filter (\<lambda>k. Status (results ! k)) [i..<j]"
  unfolding decode_events_def by (rule decoded_positions_map)

lemma transport_invocations_decode_events:
  "transport_invocations (EvCallContract m b # decode_events results i j) = 1"
proof -
  have "filter is_transport (map (\<lambda>k. EvUnpackFunc k (f k)) ks) = []" for f ks
    by (induction ks) auto
  then show ?thesis by (simp add: transport_invocations_def decode_events_def)
qed

lemma FlexibleCall_after_round_trip:
  assumes ne: "calls mc \<noteq> []"
    and pk: "\<forall>c\<in>set (calls mc). \<not> isl (PackFunc c ())"
    and ag: "Pack_tryAggregate multicallAbi requireSuccess (packed_pairs (calls mc)) = Inr callData"
    and cl: "MultiCaller.client mc \<lparr>To = MultiCaller.contractAddress mc, Data = callData\<rparr> (blockNumber_of opts) = Inr resp"
    and un: "Unpack_tryAggregate multicallAbi resp = Inr results"
  obtains cs' where "length cs' = length (calls mc)"
    and "\<forall>j<length (calls mc). Target (cs' ! j) = Target (calls mc ! j)
           \<and> Method (cs' ! j) = Method (calls mc ! j)
           \<and> UnpackFunc (cs' ! j) = UnpackFunc (calls mc ! j)"
    and "FlexibleCall multicallAbi hex requireSuccess opts mc =
          (case unpack_loop hex 0 cs' results (replicate (length (calls mc)) False)
                  [EvCallContract \<lparr>To = MultiCaller.contractAddress mc, Data = callData\<rparr> (blockNumber_of opts)] of
             (Crashed p, tr') \<Rightarrow> (Panicked p, mc\<lparr>calls := cs'\<rparr>, tr')
           | (Failed err, tr') \<Rightarrow> (Returned (Inl err), mc\<lparr>calls := []\<rparr>, tr')
           | (Done res', tr') \<Rightarrow> (Returned (Inr res'), mc\<lparr>calls := []\<rparr>, tr'))"
proof -
  from pack_loop_all_ok [OF pk] obtain cs' where
    p: "pack_loop 0 (calls mc) (calls mc) = (None, cs')" and l: "length cs' = length (calls mc)"
    and m: "map (\<lambda>c. (Target c, CallData c)) cs' = packed_pairs (calls mc)"
    and f: "\<forall>j<length (calls mc). Target (cs' ! j) = Target (calls mc ! j)
           \<and> Method (cs' ! j) = Method (calls mc ! j)
           \<and> UnpackFunc (cs' ! j) = UnpackFunc (calls mc ! j)"
    by blast
  have "FlexibleCall multicallAbi hex requireSuccess opts mc =
          (case unpack_loop hex 0 cs' results (replicate (length (calls mc)) False)
                  [EvCallContract \<lparr>To = MultiCaller.contractAddress mc, Data = callData\<rparr> (blockNumber_of opts)] of
             (Crashed p, tr') \<Rightarrow> (Panicked p, mc\<lparr>calls := cs'\<rparr>, tr')
           | (Failed err, tr') \<Rightarrow> (Returned (Inl err), mc\<lparr>calls := []\<rparr>, tr')
           | (Done res', tr') \<Rightarrow> (Returned (Inr res'), mc\<lparr>calls := []\<rparr>, tr'))"
    using ne p m ag cl un
    by (simp add: FlexibleCall_def Let_def split: prod.splits loop_result.splits)
  with l f that show ?thesis by blast
qed

subsection \<open>Executing an empty queue\<close>

text \<open>
  C3. For every requireSuccess flag and every call options, executing a MultiCaller whose
  queue holds no descriptor returns the empty flag list with no error, leaves the
  MultiCaller as it was, and has an empty trace: the transport capability is never called.
\<close>

theorem FlexibleCall_empty_queue:
  "FlexibleCall multicallAbi hex requireSuccess opts (mc\<lparr>calls := []\<rparr>) =
     (Returned (Inr []), mc\<lparr>calls := []\<rparr>, [])
   \<and> transport_invocations (snd (snd (FlexibleCall multicallAbi hex requireSuccess opts
         (mc\<lparr>calls := []\<rparr>)))) = 0"
  by (simp add: FlexibleCall_def transport_invocations_def)

theorem FlexibleCall_empty_queue_witness:
  "FlexibleCall stub_multicallAbi stub_hex True None (NewMultiCaller failing_client 9) =
     (Returned (Inr []), NewMultiCaller failing_client 9, [])
   \<and> transport_invocations (snd (snd (FlexibleCall stub_multicallAbi stub_hex True None
         (NewMultiCaller failing_client 9)))) = 0"
  using FlexibleCall_empty_queue [of stub_multicallAbi stub_hex True None
      "NewMultiCaller failing_client 9"]
  by (simp add: transport_invocations_def)

subsection \<open>Success flags and decode steps\<close>

text \<open>
  C4, amended. Take a non-empty queue whose round trip completes: every encode step
  succeeds, and so do the aggregate pack, the transport call and the aggregate unpack. If
  the decoded response holds at least one (success, returnData) entry per descriptor and
  the decode step of every successful entry succeeds, \<^verbatim>\<open>FlexibleCall\<close> returns one flag
  per descriptor, in enqueue order, the flag of position \<open>i\<close> being the success bit of
  entry \<open>i\<close>; it clears the queue and calls the transport once; and the decode steps that
  ran are those of the positions whose flag is true, in enqueue order. With three
  descriptors of which the second fails under requireSuccess = false, the flags are
  \<open>[True, False, True]\<close> and the decode steps of positions 0 and 2 run. The claim as stated
  asks nothing of the length of the decoded response; with a response of two entries for
  three descriptors, all of whose decode steps succeed, the call returns no flags: it
  panics.
\<close>

theorem FlexibleCall_flags_and_decodes:
  assumes ne: "calls mc \<noteq> []"
    and pk: "\<forall>c\<in>set (calls mc). \<not> isl (PackFunc c ())"
    and ag: "Pack_tryAggregate multicallAbi requireSuccess (packed_pairs (calls mc)) = Inr callData"
    and cl: "MultiCaller.client mc \<lparr>To = MultiCaller.contractAddress mc, Data = callData\<rparr> (blockNumber_of opts) = Inr resp"
    and un: "Unpack_tryAggregate multicallAbi resp = Inr results"
    and len: "length (calls mc) \<le> length results"
    and dec: "\<forall>i<length (calls mc). Status (results ! i) \<longrightarrow>
               UnpackFunc (calls mc ! i) (ReturnData (results ! i)) = None"
  shows "\<exists>flags tr. FlexibleCall multicallAbi hex requireSuccess opts mc =
             (Returned (Inr flags), mc\<lparr>calls := []\<rparr>, tr)
         \<and> length flags = length (calls mc)
         \<and> (\<forall>i<length (calls mc). flags ! i = Status (results ! i))
         \<and> decoded_positions tr = filter (\<lambda>i. flags ! i) [0..<length (calls mc)]
         \<and> (\<forall>i<length (calls mc). i \<in> set (decoded_positions tr) \<longleftrightarrow> flags ! i)
         \<and> transport_invocations tr = 1"
proof -
  let ?n = "length (calls mc)"
  let ?ev = "EvCallContract \<lparr>To = MultiCaller.contractAddress mc, Data = callData\<rparr> (blockNumber_of opts)"
  from FlexibleCall_after_round_trip [OF ne pk ag cl un, of hex] obtain cs' where
    l: "length cs' = ?n"
    and f: "\<forall>j<?n. Target (cs' ! j) = Target (calls mc ! j) \<and> Method (cs' ! j) = Method (calls mc ! j)
           \<and> UnpackFunc (cs' ! j) = UnpackFunc (calls mc ! j)"
    and fc: "FlexibleCall multicallAbi hex requireSuccess opts mc =
          (case unpack_loop hex 0 cs' results (replicate ?n False) [?ev] of
             (Crashed p, tr') \<Rightarrow> (Panicked p, mc\<lparr>calls := cs'\<rparr>, tr')
           | (Failed err, tr') \<Rightarrow> (Returned (Inl err), mc\<lparr>calls := []\<rparr>, tr')
           | (Done res', tr') \<Rightarrow> (Returned (Inr res'), mc\<lparr>calls := []\<rparr>, tr'))"
    by blast
  have "unpack_loop hex 0 cs' results (replicate (length cs') False) [?ev] =
           (Done (map Status (take (length cs') results)), [?ev] @ decode_events results 0 (length cs'))"
    by (rule unpack_loop_done) (use l f len dec in auto)
  then have r: "FlexibleCall multicallAbi hex requireSuccess opts mc =
      (Returned (Inr (map Status (take ?n results))), mc\<lparr>calls := []\<rparr>, ?ev # decode_events results 0 ?n)"
    using fc l by simp
  let ?flags = "map Status (take ?n results)"
  have fl: "\<forall>i<?n. ?flags ! i = Status (results ! i)" using len by simp
  have dp: "decoded_positions (?ev # decode_events results 0 ?n) =
      filter (\<lambda>i. Status (results ! i)) [0..<?n]"
    by (simp add: decoded_positions_decode_events)
  have dp': "filter (\<lambda>i. Status (results ! i)) [0..<?n] = filter (\<lambda>i. ?flags ! i) [0..<?n]"
    by (rule filter_cong) (use fl in auto)
  have ti: "transport_invocations (?ev # decode_events results 0 ?n) = 1"
    by (rule transport_invocations_decode_events)
  show ?thesis
    apply (rule exI [of _ ?flags], rule exI [of _ "?ev # decode_events results 0 ?n"])
    using r fl dp dp' ti len by auto
qed

theorem FlexibleCall_flags_and_decodes_witness:
  "FlexibleCall stub_multicallAbi stub_hex False None (three_calls ''b'' 0 echo_client) =
     (Returned (Inr [True, False, True]), (three_calls ''b'' 0 echo_client)\<lparr>calls := []\<rparr>,
      [EvCallContract \<lparr>To = 9, Data = [1, 0, 3]\<rparr> None, EvUnpackFunc 0 [1], EvUnpackFunc 2 [3]])
   \<and> decoded_positions (snd (snd (FlexibleCall stub_multicallAbi stub_hex False None
         (three_calls ''b'' 0 echo_client)))) = [0, 2]"
proof -
  let ?mc = "three_calls ''b'' 0 echo_client"
  let ?results = "[\<lparr>Status = True, ReturnData = [1]\<rparr>, \<lparr>Status = False, ReturnData = [0]\<rparr>,
                   \<lparr>Status = True, ReturnData = [3]\<rparr>]"
  have ne: "calls ?mc \<noteq> []" by simp
  have pk: "\<forall>c\<in>set (calls ?mc). \<not> isl (PackFunc c ())" by simp
  have ag: "Pack_tryAggregate stub_multicallAbi False (packed_pairs (calls ?mc)) = Inr [1, 0, 3]"
    by (simp add: packed_pairs_def)
  have cl: "MultiCaller.client ?mc \<lparr>To = MultiCaller.contractAddress ?mc, Data = [1, 0, 3]\<rparr> (blockNumber_of None)
              = Inr [1, 0, 3]"
    by (simp add: blockNumber_of_def)
  have un: "Unpack_tryAggregate stub_multicallAbi [1, 0, 3] = Inr ?results" by simp
  have len: "length (calls ?mc) \<le> length ?results" by simp
  have dec: "\<forall>i<length (calls ?mc). Status (?results ! i) \<longrightarrow>
               UnpackFunc (calls ?mc ! i) (ReturnData (?results ! i)) = None"
    by (simp add: FlexibleCall_def blockNumber_of_def Errorf_w_def Errorf_def Let_def packed_pairs_def less_Suc_eq nth_Cons')
  from FlexibleCall_flags_and_decodes [OF ne pk ag cl un len dec, of stub_hex]
  show ?thesis by (simp add: FlexibleCall_def blockNumber_of_def Errorf_w_def Errorf_def Let_def)
qed

theorem FlexibleCall_flags_and_decodes_counterexample:
  "Unpack_tryAggregate stub_multicallAbi [1, 7] =
     Inr [\<lparr>Status = True, ReturnData = [1]\<rparr>, \<lparr>Status = True, ReturnData = [7]\<rparr>]
   \<and> length (calls (three_calls ''b'' 7 short_client)) = 3
   \<and> FlexibleCall stub_multicallAbi stub_hex True None (three_calls ''b'' 7 short_client) =
     (Panicked (IndexOutOfRange 2 2),
      (three_calls ''b'' 7 short_client)
        \<lparr>calls := map (\<lambda>c. c\<lparr>CallData := projr (PackFunc c ())\<rparr>)
                    (calls (three_calls ''b'' 7 short_client))\<rparr>,
      [EvCallContract \<lparr>To = 9, Data = [1, 7, 3]\<rparr> None, EvUnpackFunc 0 [1], EvUnpackFunc 1 [7]])"
  by (simp add: FlexibleCall_def blockNumber_of_def Errorf_w_def Errorf_def Let_def)

subsection \<open>A decode step that fails\<close>

text \<open>
  C6. Take a non-empty queue whose encode steps, aggregate pack, transport call and
  aggregate unpack all succeed. If the decode step of some successful entry fails, the call
  returns no flags but an error: the one of the first such position \<open>k\<close>, whose text names
  the target address and the method label of descriptor \<open>k\<close> and which wraps the cause. The
  decode steps that ran are those of the successful entries up to \<open>k\<close>, none of a later
  descriptor; the transport was called once; and the queue is empty on return.
\<close>

theorem FlexibleCall_decode_failure:
  assumes ne: "calls mc \<noteq> []"
    and pk: "\<forall>c\<in>set (calls mc). \<not> isl (PackFunc c ())"
    and ag: "Pack_tryAggregate multicallAbi requireSuccess (packed_pairs (calls mc)) = Inr callData"
    and cl: "MultiCaller.client mc \<lparr>To = MultiCaller.contractAddress mc, Data = callData\<rparr>
               (blockNumber_of opts) = Inr resp"
    and un: "Unpack_tryAggregate multicallAbi resp = Inr results"
    and i: "i < length (calls mc)" "i < length results" "Status (results ! i)"
    and bad: "UnpackFunc (calls mc ! i) (ReturnData (results ! i)) = Some e"
  shows "\<exists>k cause err tr. k \<le> i \<and> Status (results ! k)
         \<and> UnpackFunc (calls mc ! k) (ReturnData (results ! k)) = Some cause
         \<and> FlexibleCall multicallAbi hex requireSuccess opts mc =
             (Returned (Inl err), mc\<lparr>calls := []\<rparr>, tr)
         \<and> Error err = ''error unpacking response for contract '' @ hex (Target (calls mc ! k))
               @ '', method '' @ Method (calls mc ! k) @ '': '' @ Error cause
         \<and> Unwrap err = Some cause
         \<and> decoded_positions tr = filter (\<lambda>j. Status (results ! j)) [0..<Suc k]
         \<and> (\<forall>j\<in>set (decoded_positions tr). j \<le> k)
         \<and> transport_invocations tr = 1"
proof -
  let ?n = "length (calls mc)"
  let ?ev = "EvCallContract \<lparr>To = MultiCaller.contractAddress mc, Data = callData\<rparr> (blockNumber_of opts)"
  from FlexibleCall_after_round_trip [OF ne pk ag cl un, of hex] obtain cs' where
    l: "length cs' = ?n"
    and f: "\<forall>j<?n. Target (cs' ! j) = Target (calls mc ! j) \<and> Method (cs' ! j) = Method (calls mc ! j)
           \<and> UnpackFunc (cs' ! j) = UnpackFunc (calls mc ! j)"
    and fc: "FlexibleCall multicallAbi hex requireSuccess opts mc =
          (case unpack_loop hex 0 cs' results (replicate ?n False) [?ev] of
             (Crashed p, tr') \<Rightarrow> (Panicked p, mc\<lparr>calls := cs'\<rparr>, tr')
           | (Failed err, tr') \<Rightarrow> (Returned (Inl err), mc\<lparr>calls := []\<rparr>, tr')
           | (Done res', tr') \<Rightarrow> (Returned (Inr res'), mc\<lparr>calls := []\<rparr>, tr'))"
    by blast
  have i': "i < length cs'" and bad': "UnpackFunc (cs' ! i) (ReturnData (results ! i)) \<noteq> None"
    using i(1) l f bad by auto
  from unpack_loop_first_failure [OF i' i(2,3) bad' l [symmetric], of hex "[?ev]"]
  obtain k cause where ki: "k \<le> i" and sk: "Status (results ! k)"
    and ck: "UnpackFunc (cs' ! k) (ReturnData (results ! k)) = Some cause"
    and ul: "unpack_loop hex 0 cs' results (replicate ?n False) [?ev] =
               (Failed (Errorf_w (''error unpacking response for contract '' @ hex (Target (cs' ! k))
                          @ '', method '' @ Method (cs' ! k) @ '': '') cause),
                [?ev] @ decode_events results 0 (Suc k))"
    by blast
  let ?err = "Errorf_w (''error unpacking response for contract '' @ hex (Target (cs' ! k))
                          @ '', method '' @ Method (cs' ! k) @ '': '') cause"
  have kn: "k < ?n" using ki i(1) by simp
  have r: "FlexibleCall multicallAbi hex requireSuccess opts mc =
      (Returned (Inl ?err), mc\<lparr>calls := []\<rparr>, ?ev # decode_events results 0 (Suc k))"
    using fc ul by simp
  have tm: "Target (cs' ! k) = Target (calls mc ! k)" "Method (cs' ! k) = Method (calls mc ! k)"
    "UnpackFunc (calls mc ! k) (ReturnData (results ! k)) = Some cause"
    using f kn ck by auto
  have dp: "decoded_positions (?ev # decode_events results 0 (Suc k)) =
      filter (\<lambda>j. Status (results ! j)) [0..<Suc k]"
    by (simp add: decoded_positions_decode_events del: upt_Suc)
  have ti: "transport_invocations (?ev # decode_events results 0 (Suc k)) = 1"
    by (rule transport_invocations_decode_events)
  have later: "\<forall>j\<in>set (decoded_positions (?ev # decode_events results 0 (Suc k))). j \<le> k"
    unfolding dp by auto
  show ?thesis
    apply (rule exI [of _ k], rule exI [of _ cause], rule exI [of _ ?err])
    apply (rule exI [of _ "?ev # decode_events results 0 (Suc k)"])
    using ki sk r tm dp ti later by (simp add: Errorf_w_def del: upt_Suc)
qed

theorem FlexibleCall_decode_failure_witness:
  "FlexibleCall stub_multicallAbi stub_hex False None (three_calls ''b'' 255 echo_client) =
     (Returned (Inl (GoError
        ''error unpacking response for contract 0xA2, method b: abi: improperly formatted output''
        (Some (GoError ''abi: improperly formatted output'' None)))),
      (three_calls ''b'' 255 echo_client)\<lparr>calls := []\<rparr>,
      [EvCallContract \<lparr>To = 9, Data = [1, 255, 3]\<rparr> None, EvUnpackFunc 0 [1], EvUnpackFunc 1 [255]])"
proof -
  let ?mc = "three_calls ''b'' 255 echo_client"
  let ?results = "[\<lparr>Status = True, ReturnData = [1]\<rparr>, \<lparr>Status = True, ReturnData = [255]\<rparr>,
                   \<lparr>Status = True, ReturnData = [3]\<rparr>]"
  have ne: "calls ?mc \<noteq> []" by simp
  have pk: "\<forall>c\<in>set (calls ?mc). \<not> isl (PackFunc c ())" by simp
  have ag: "Pack_tryAggregate stub_multicallAbi False (packed_pairs (calls ?mc)) = Inr [1, 255, 3]"
    by (simp add: packed_pairs_def)
  have cl: "MultiCaller.client ?mc \<lparr>To = MultiCaller.contractAddress ?mc, Data = [1, 255, 3]\<rparr> (blockNumber_of None)
              = Inr [1, 255, 3]"
    by (simp add: blockNumber_of_def)
  have un: "Unpack_tryAggregate stub_multicallAbi [1, 255, 3] = Inr ?results" by simp
  have i: "1 < length (calls ?mc)" "1 < length ?results" "Status (?results ! 1)"
    by simp_all
  have bad: "UnpackFunc (calls ?mc ! 1) (ReturnData (?results ! 1))
               = Some (Errorf ''abi: improperly formatted output'')"
    by (simp add: Errorf_def)
  from FlexibleCall_decode_failure [OF ne pk ag cl un i bad, of stub_hex]
  show ?thesis by (simp add: FlexibleCall_def blockNumber_of_def Errorf_w_def Errorf_def Let_def)
qed

subsection \<open>An encode step that fails\<close>

text \<open>
  C7. If the encode step of any queued descriptor fails, \<^verbatim>\<open>FlexibleCall\<close> returns the error
  of the first descriptor, in queue order, whose encode step fails, as that step gives it;
  its trace is empty: the transport is never called and no decode step runs.
\<close>

theorem FlexibleCall_encode_failure:
  assumes "c \<in> set (calls mc)" "isl (PackFunc c ())"
  shows "\<exists>pre d post e mc'. calls mc = pre @ d # post
         \<and> (\<forall>x\<in>set pre. \<not> isl (PackFunc x ())) \<and> PackFunc d () = Inl e
         \<and> FlexibleCall multicallAbi hex requireSuccess opts mc = (Returned (Inl e), mc', [])
         \<and> length (calls mc') = length (calls mc)
         \<and> transport_invocations (snd (snd (FlexibleCall multicallAbi hex requireSuccess opts mc))) = 0"
proof -
  from assms have "\<exists>x\<in>set (calls mc). isl (PackFunc x ())" by blast
  from split_list_first_prop [OF this] obtain pre d post where
    s: "calls mc = pre @ d # post" and d: "isl (PackFunc d ())"
    and p: "\<forall>x\<in>set pre. \<not> isl (PackFunc x ())" by blast
  from d obtain e where e: "PackFunc d () = Inl e" by (cases "PackFunc d ()") auto
  have "fst (pack_loop 0 (pre @ d # post) (calls mc)) = Some e"
    by (rule pack_loop_first_failure [OF p e])
  then obtain cs' where pl: "pack_loop 0 (calls mc) (calls mc) = (Some e, cs')"
    using s by (cases "pack_loop 0 (calls mc) (calls mc)") auto
  then have l: "length cs' = length (calls mc)"
    using pack_loop_length [of 0 "calls mc" "calls mc"] by simp
  have "calls mc \<noteq> []" using assms(1) by auto
  with pl have "FlexibleCall multicallAbi hex requireSuccess opts mc =
      (Returned (Inl e), mc\<lparr>calls := cs'\<rparr>, [])"
    by (simp add: FlexibleCall_def)
  with s p e l show ?thesis by (auto simp: transport_invocations_def)
qed

theorem FlexibleCall_encode_failure_witness:
  "FlexibleCall stub_multicallAbi stub_hex True None (three_calls ''missing'' 0 echo_client) =
     (Returned (Inl (GoError
        ''error packing data for call [missing] on contract 0xA2: abi: method not found''
        (Some (GoError ''abi: method not found'' None)))),
      (three_calls ''missing'' 0 echo_client)
        \<lparr>calls := (calls (three_calls ''missing'' 0 echo_client))
           [0 := (calls (three_calls ''missing'' 0 echo_client) ! 0)\<lparr>CallData := [1]\<rparr>]\<rparr>,
      [])"
proof -
  let ?mc = "three_calls ''missing'' 0 echo_client"
  have c: "calls ?mc ! 1 \<in> set (calls ?mc)" by simp
  have f: "isl (PackFunc (calls ?mc ! 1) ())" by simp
  from FlexibleCall_encode_failure [OF c f, of stub_multicallAbi stub_hex True None]
  show ?thesis by (simp add: FlexibleCall_def blockNumber_of_def Errorf_w_def Errorf_def Let_def)
qed

subsection \<open>A response shorter than the queue\<close>

text \<open>
  C9, amended. \<^verbatim>\<open>FlexibleCall\<close> reads \<^verbatim>\<open>results[i]\<close> at every descriptor position it reaches,
  with no check of the length of the decoded list. Once the round trip has succeeded:
  with at least one entry per descriptor the call never panics; with fewer entries, and
  the decode steps of the successful entries it does hold all succeeding, the call panics
  with an index out of range at position \<^verbatim>\<open>len(results)\<close> instead of returning an error, and
  the queue is not cleared; with fewer entries, one of which is successful and fails to
  decode, the call returns an error and clears the queue before it reaches the missing
  entry. The claim as stated has every shorter response reach the out-of-range access;
  the counterexample is a queue of three with a response of two whose second entry fails
  to decode.
\<close>

theorem FlexibleCall_short_response:
  assumes ne: "calls mc \<noteq> []"
    and pk: "\<forall>c\<in>set (calls mc). \<not> isl (PackFunc c ())"
    and ag: "Pack_tryAggregate multicallAbi requireSuccess (packed_pairs (calls mc)) = Inr callData"
    and cl: "MultiCaller.client mc \<lparr>To = MultiCaller.contractAddress mc, Data = callData\<rparr>
               (blockNumber_of opts) = Inr resp"
    and un: "Unpack_tryAggregate multicallAbi resp = Inr results"
  shows "(length (calls mc) \<le> length results \<longrightarrow>
            (\<forall>p. fst (FlexibleCall multicallAbi hex requireSuccess opts mc) \<noteq> Panicked p))
       \<and> (length results < length (calls mc)
            \<and> (\<forall>j<length results. Status (results ! j) \<longrightarrow>
                   UnpackFunc (calls mc ! j) (ReturnData (results ! j)) = None) \<longrightarrow>
            fst (FlexibleCall multicallAbi hex requireSuccess opts mc) =
              Panicked (IndexOutOfRange (int (length results)) (int (length results)))
            \<and> length (calls (fst (snd (FlexibleCall multicallAbi hex requireSuccess opts mc))))
                = length (calls mc))
       \<and> (length results < length (calls mc)
            \<and> (\<exists>j<length results. Status (results ! j)
                   \<and> UnpackFunc (calls mc ! j) (ReturnData (results ! j)) \<noteq> None) \<longrightarrow>
            (\<exists>err. fst (FlexibleCall multicallAbi hex requireSuccess opts mc) = Returned (Inl err))
            \<and> calls (fst (snd (FlexibleCall multicallAbi hex requireSuccess opts mc))) = [])"
proof -
  let ?n = "length (calls mc)"
  let ?ev = "EvCallContract \<lparr>To = MultiCaller.contractAddress mc, Data = callData\<rparr> (blockNumber_of opts)"
  from FlexibleCall_after_round_trip [OF ne pk ag cl un, of hex] obtain cs' where
    l: "length cs' = ?n"
    and f: "\<forall>j<?n. Target (cs' ! j) = Target (calls mc ! j) \<and> Method (cs' ! j) = Method (calls mc ! j)
           \<and> UnpackFunc (cs' ! j) = UnpackFunc (calls mc ! j)"
    and fc: "FlexibleCall multicallAbi hex requireSuccess opts mc =
          (case unpack_loop hex 0 cs' results (replicate ?n False) [?ev] of
             (Crashed p, tr') \<Rightarrow> (Panicked p, mc\<lparr>calls := cs'\<rparr>, tr')
           | (Failed err, tr') \<Rightarrow> (Returned (Inl err), mc\<lparr>calls := []\<rparr>, tr')
           | (Done res', tr') \<Rightarrow> (Returned (Inr res'), mc\<lparr>calls := []\<rparr>, tr'))"
    by blast
  have a: "fst (FlexibleCall multicallAbi hex requireSuccess opts mc) \<noteq> Panicked p"
    if "?n \<le> length results" for p
  proof -
    have nc: "fst (unpack_loop hex 0 cs' results (replicate ?n False) [?ev]) \<noteq> Crashed p"
      by (rule unpack_loop_in_bounds) (use that l in simp)
    obtain r tr' where u: "unpack_loop hex 0 cs' results (replicate ?n False) [?ev] = (r, tr')"
      by (cases "unpack_loop hex 0 cs' results (replicate ?n False) [?ev]")
    show ?thesis using nc unfolding fc u by (cases r) auto
  qed
  have b: "fst (FlexibleCall multicallAbi hex requireSuccess opts mc) =
              Panicked (IndexOutOfRange (int (length results)) (int (length results)))
            \<and> length (calls (fst (snd (FlexibleCall multicallAbi hex requireSuccess opts mc)))) = ?n"
    if short: "length results < ?n"
      and ok: "\<forall>j<length results. Status (results ! j) \<longrightarrow>
                   UnpackFunc (calls mc ! j) (ReturnData (results ! j)) = None"
  proof -
    have "unpack_loop hex 0 cs' results (replicate ?n False) [?ev] =
           (Crashed (IndexOutOfRange (int (length results)) (int (length results))),
            [?ev] @ decode_events results 0 (length results))"
      by (rule unpack_loop_crashed) (use short ok l f in auto)
    then show ?thesis using fc l by simp
  qed
  have c: "(\<exists>err. fst (FlexibleCall multicallAbi hex requireSuccess opts mc) = Returned (Inl err))
            \<and> calls (fst (snd (FlexibleCall multicallAbi hex requireSuccess opts mc))) = []"
    if short: "length results < ?n"
      and j: "j < length results" "Status (results ! j)"
        "UnpackFunc (calls mc ! j) (ReturnData (results ! j)) \<noteq> None" for j
  proof -
    have j': "j < length cs'" and bad': "UnpackFunc (cs' ! j) (ReturnData (results ! j)) \<noteq> None"
      using short j l f by auto
    from unpack_loop_first_failure [OF j' j(1,2) bad' l [symmetric], of hex "[?ev]"]
    obtain err tr' where "unpack_loop hex 0 cs' results (replicate ?n False) [?ev] = (Failed err, tr')"
      by blast
    then show ?thesis using fc by simp
  qed
  from a b c show ?thesis by blast
qed

theorem FlexibleCall_short_response_witness:
  "FlexibleCall stub_multicallAbi stub_hex False None (three_calls ''b'' 0 short_client) =
     (Panicked (IndexOutOfRange 2 2),
      (three_calls ''b'' 0 short_client)
        \<lparr>calls := map (\<lambda>c. c\<lparr>CallData := projr (PackFunc c ())\<rparr>)
                    (calls (three_calls ''b'' 0 short_client))\<rparr>,
      [EvCallContract \<lparr>To = 9, Data = [1, 0, 3]\<rparr> None, EvUnpackFunc 0 [1]])"
proof -
  let ?mc = "three_calls ''b'' 0 short_client"
  let ?results = "[\<lparr>Status = True, ReturnData = [1]\<rparr>, \<lparr>Status = False, ReturnData = [0]\<rparr>]"
  have ne: "calls ?mc \<noteq> []" by simp
  have pk: "\<forall>c\<in>set (calls ?mc). \<not> isl (PackFunc c ())" by simp
  have ag: "Pack_tryAggregate stub_multicallAbi False (packed_pairs (calls ?mc)) = Inr [1, 0, 3]"
    by (simp add: packed_pairs_def)
  have cl: "MultiCaller.client ?mc \<lparr>To = MultiCaller.contractAddress ?mc, Data = [1, 0, 3]\<rparr> (blockNumber_of None)
              = Inr [1, 0]"
    by (simp add: blockNumber_of_def)
  have un: "Unpack_tryAggregate stub_multicallAbi [1, 0] = Inr ?results" by simp
  from FlexibleCall_short_response [OF ne pk ag cl un, of stub_hex]
  show ?thesis by (simp add: FlexibleCall_def blockNumber_of_def Errorf_w_def Errorf_def Let_def)
qed

theorem FlexibleCall_short_response_counterexample:
  "Unpack_tryAggregate stub_multicallAbi [1, 255] =
     Inr [\<lparr>Status = True, ReturnData = [1]\<rparr>, \<lparr>Status = True, ReturnData = [255]\<rparr>]
   \<and> length (calls (three_calls ''b'' 255 short_client)) = 3
   \<and> FlexibleCall stub_multicallAbi stub_hex False None (three_calls ''b'' 255 short_client) =
     (Returned (Inl (GoError
        ''error unpacking response for contract 0xA2, method b: abi: improperly formatted output''
        (Some (GoError ''abi: improperly formatted output'' None)))),
      (three_calls ''b'' 255 short_client)\<lparr>calls := []\<rparr>,
      [EvCallContract \<lparr>To = 9, Data = [1, 255, 3]\<rparr> None, EvUnpackFunc 0 [1], EvUnpackFunc 1 [255]])"
  by (simp add: FlexibleCall_def blockNumber_of_def Errorf_w_def Errorf_def Let_def)

subsection \<open>The queue after a failed round trip\<close>

text \<open>
  C1. The claim has the queue empty after every outcome. \<^verbatim>\<open>FlexibleCall\<close> resets
  \<^verbatim>\<open>mc.calls\<close> on success and on a failed decode step only: the returns after a failed
  encode step, aggregate pack, transport call or aggregate unpack leave it as it is. Here
  the transport refuses the connection: the call returns the error, the three descriptors
  stay queued, and executing again with nothing enqueued calls the transport once more.
\<close>

theorem FlexibleCall_queue_not_cleared:
  "FlexibleCall stub_multicallAbi stub_hex False None (three_calls ''b'' 0 failing_client) =
     (Returned (Inl (GoError ''error calling multicall contract: connection refused''
                      (Some (GoError ''connection refused'' None)))),
      (three_calls ''b'' 0 failing_client)
        \<lparr>calls := map (\<lambda>c. c\<lparr>CallData := projr (PackFunc c ())\<rparr>)
                    (calls (three_calls ''b'' 0 failing_client))\<rparr>,
      [EvCallContract \<lparr>To = 9, Data = [1, 0, 3]\<rparr> None])
   \<and> length (calls (fst (snd (FlexibleCall stub_multicallAbi stub_hex False None
        (three_calls ''b'' 0 failing_client))))) = 3
   \<and> transport_invocations (snd (snd (FlexibleCall stub_multicallAbi stub_hex False None
        (fst (snd (FlexibleCall stub_multicallAbi stub_hex False None
           (three_calls ''b'' 0 failing_client))))))) = 1"
  by (simp add: FlexibleCall_def blockNumber_of_def Errorf_w_def Errorf_def Let_def
      transport_invocations_def)

section \<open>Properties of GetEthBalances\<close>

subsection \<open>The chunking loop\<close>


lemma chunk_count_less: "0 < C \<Longrightarrow> k < chunk_count C N \<longleftrightarrow> k * C < N"
proof -
  assume C: "0 < C"
  have "k < chunk_count C N \<longleftrightarrow> Suc k \<le> (N + C - 1) div C"
    by (simp add: chunk_count_def Suc_le_eq)
  also have "\<dots> \<longleftrightarrow> Suc k * C \<le> N + C - 1"
    using C by (simp add: less_eq_div_iff_mult_less_eq)
  also have "\<dots> \<longleftrightarrow> k * C < N" using C by auto
  finally show ?thesis .
qed

lemma slice_chunk:
  assumes "off < length xs"
  shows "slice xs (int off)
           (if int off + int C > int (length xs) then int (length xs) else int off + int C)
         = Returned (take C (drop off xs))"
proof (cases "int off + int C > int (length xs)")
  case True
  then have "length xs < off + C" by linarith
  then have "length (drop off xs) \<le> C" by simp
  then have "take C (drop off xs) = drop off xs" by simp
  moreover have "take (length xs - off) (drop off xs) = drop off xs"
    by simp
  ultimately show ?thesis using True assms by (simp add: slice_def)
next
  case False
  then have "off + C \<le> length xs" by linarith
  moreover have "nat (int off + int C) - off = C" by simp
  ultimately show ?thesis using False by (simp add: slice_def)
qed

lemma chunk_loop_positive:
  assumes "0 < BalanceBatchSize b" "ThreadLimit b \<noteq> 0"
    and "C = nat (BalanceBatchSize b)" "n = chunk_count C (length addresses)"
    and "k \<le> n" "n - k < fuel"
  shows "chunk_loop fuel b addresses (int (k * C)) units =
           Some (Returned (units @ map (chunk_at C addresses) [k..<n]))"
  using assms(5,6)
proof (induction fuel arbitrary: k units)
  case 0
  then show ?case by simp
next
  case (Suc fuel)
  have C: "0 < C" "int C = BalanceBatchSize b" using assms(1,3) by auto
  define off where "off = k * C"
  show ?case
  proof (cases "k < n")
    case True
    then have kN: "off < length addresses"
      using chunk_count_less [OF C(1)] assms(4) by (simp add: off_def)
    have sl: "slice addresses (int off)
           (if int off + BalanceBatchSize b > int (length addresses) then int (length addresses)
            else int off + BalanceBatchSize b)
         = Returned (take C (drop off addresses))"
      unfolding C(2) [symmetric] by (rule slice_chunk [OF kN])
    have kN': "int off < int (length addresses)" using kN by simp
    have next_i: "int off + BalanceBatchSize b = int (Suc k * C)"
      unfolding C(2) [symmetric] by (simp add: off_def)
    have ih: "chunk_loop fuel b addresses (int (Suc k * C)) (units @ [chunk_at C addresses k]) =
           Some (Returned ((units @ [chunk_at C addresses k]) @ map (chunk_at C addresses) [Suc k..<n]))"
      by (rule Suc.IH) (use True Suc.prems in auto)
    have "chunk_loop (Suc fuel) b addresses (int off) units =
          chunk_loop fuel b addresses (int off + BalanceBatchSize b)
            (units @ [(off, take C (drop off addresses))])"
      using kN' assms(2) sl by (simp add: Let_def)
    then have "chunk_loop (Suc fuel) b addresses (int (k * C)) units =
          chunk_loop fuel b addresses (int (Suc k * C)) (units @ [chunk_at C addresses k])"
      unfolding next_i by (simp add: off_def chunk_at_def)
    then show ?thesis using ih True by (simp add: upt_conv_Cons)
  next
    case False
    then have "k = n" using Suc.prems by simp
    moreover have "\<not> off < length addresses"
      using False chunk_count_less [OF C(1)] assms(4) by (simp add: off_def)
    then have "\<not> int (k * C) < int (length addresses)" unfolding off_def by linarith
    ultimately show ?thesis by (simp add: Let_def del: of_nat_mult)
  qed
qed




lemma concat_chunks_take:
  "concat (map (\<lambda>k. take C (drop (k * C) xs)) [0..<n]) = take (n * C) xs"
proof (induction n)
  case 0
  then show ?case by simp
next
  case (Suc n)
  have "take (n * C + C) xs = take (n * C) xs @ take C (drop (n * C) xs)"
    by (rule take_add)
  then show ?case using Suc by (simp add: add.commute)
qed

lemma concat_chunk_units:
  assumes "0 < C"
  shows "concat (map snd (chunk_units C addresses)) = addresses"
proof -
  let ?n = "chunk_count C (length addresses)"
  have "\<not> ?n < chunk_count C (length addresses)" by simp
  then have "length addresses \<le> ?n * C" using chunk_count_less [OF assms, of ?n "length addresses"]
    by simp
  moreover have "map snd (chunk_units C addresses) = map (\<lambda>k. take C (drop (k * C) addresses)) [0..<?n]"
    by (simp add: chunk_units_def chunk_at_def)
  ultimately show ?thesis by (simp add: concat_chunks_take)
qed


text \<open>
  Every unit the loop spawns ends within the address list, whatever the batch size: the
  stores \<^verbatim>\<open>balances[i+j]\<close> of a unit stay in range.
\<close>

lemma slice_in_range:
  "slice xs lo hi = Returned s \<Longrightarrow> nat lo + length s \<le> length xs"
  by (auto simp: slice_def split: if_splits)

lemma chunk_loop_in_range:
  assumes "chunk_loop fuel b addresses i units = Some (Returned us)"
    and "\<forall>(off, sub)\<in>set units. off + length sub \<le> length addresses"
  shows "\<forall>(off, sub)\<in>set us. off + length sub \<le> length addresses"
  using assms
proof (induction fuel arbitrary: i units)
  case 0
  then show ?case by simp
next
  case (Suc fuel)
  show ?case
  proof (cases "i < int (length addresses)")
    case False
    then show ?thesis using Suc.prems by (simp add: Let_def)
  next
    case True
    let ?max = "if i + BalanceBatchSize b > int (length addresses) then int (length addresses)
                else i + BalanceBatchSize b"
    from Suc.prems(1) True obtain sub where
      sl: "slice addresses i ?max = Returned sub"
      and rec: "chunk_loop fuel b addresses (i + BalanceBatchSize b) (units @ [(nat i, sub)])
                  = Some (Returned us)"
      by (auto simp: Let_def split: if_splits outcome.splits)
    have "\<forall>(off, sub)\<in>set (units @ [(nat i, sub)]). off + length sub \<le> length addresses"
      using Suc.prems(2) slice_in_range [OF sl] by auto
    from Suc.IH [OF rec this] show ?thesis .
  qed
qed

subsection \<open>A chunk unit\<close>

text \<open>
  A unit writes only the cells from its offset on, one per address of its chunk; its error
  does not depend on what \<^verbatim>\<open>balances\<close> holds; and when it returns no error the cells
  hold the decoded balances, none of them nil.
\<close>

lemma store_balances_length:
  "length (snd (store_balances str sa i j sbs bal)) = length bal"
  by (induction sbs arbitrary: j bal) (auto split: option.splits)

lemma store_balances_error_indep:
  "fst (store_balances str sa i j sbs bal) = fst (store_balances str sa i j sbs bal')"
  by (induction sbs arbitrary: j bal bal') (auto split: option.splits)

lemma store_balances_frame:
  "p < i + j \<or> i + j + length sbs \<le> p \<Longrightarrow>
   snd (store_balances str sa i j sbs bal) ! p = bal ! p"
proof (induction sbs arbitrary: j bal)
  case Nil
  then show ?case by simp
next
  case (Cons x sbs)
  show ?case
  proof (cases x)
    case None
    then show ?thesis by simp
  next
    case (Some v)
    have "snd (store_balances str sa i (Suc j) sbs (bal[i + j := Some v])) ! p
            = (bal[i + j := Some v]) ! p"
      by (rule Cons.IH) (use Cons.prems in auto)
    moreover have "p \<noteq> i + j" using Cons.prems by auto
    ultimately show ?thesis using Some by simp
  qed
qed

lemma store_balances_ok:
  assumes "fst (store_balances str sa i j sbs bal) = None"
  shows "(\<forall>x\<in>set sbs. x \<noteq> None) \<and>
         (\<forall>m<length sbs. i + j + m < length bal \<longrightarrow>
            snd (store_balances str sa i j sbs bal) ! (i + j + m) = sbs ! m)"
  using assms
proof (induction sbs arbitrary: j bal)
  case Nil
  then show ?case by simp
next
  case (Cons x sbs)
  from Cons.prems obtain v where x: "x = Some v" by (cases x) auto
  let ?bal = "bal[i + j := Some v]"
  have rec: "store_balances str sa i j (x # sbs) bal = store_balances str sa i (Suc j) sbs ?bal"
    using x by simp
  have ok: "fst (store_balances str sa i (Suc j) sbs ?bal) = None"
    using Cons.prems rec by simp
  note ih = Cons.IH [OF ok]
  have "snd (store_balances str sa i j (x # sbs) bal) ! (i + j + m) = (x # sbs) ! m"
    if m: "m < length (x # sbs)" and b: "i + j + m < length bal" for m
  proof (cases m)
    case 0
    have "snd (store_balances str sa i (Suc j) sbs ?bal) ! (i + j) = ?bal ! (i + j)"
      by (rule store_balances_frame) simp
    then show ?thesis using 0 x b rec by simp
  next
    case (Suc m')
    then have "m' < length sbs" "i + Suc j + m' < length ?bal" using m b by auto
    with ih have "snd (store_balances str sa i (Suc j) sbs ?bal) ! (i + Suc j + m') = sbs ! m'"
      by blast
    then show ?thesis using Suc rec by simp
  qed
  then show ?case using ih x by auto
qed

lemma store_balances_nil:
  "\<forall>x\<in>set pre. x \<noteq> None \<Longrightarrow>
   fst (store_balances str sa i j (pre @ None # post) bal) =
     Some (Errorf (''received nil balance for address '' @ str (sa ! (j + length pre))))"
  by (induction pre arbitrary: j bal) (auto split: option.splits)

lemma balance_unit_error:
  "fst (balance_unit str b opts u bal) = unit_error str b opts u"
  unfolding unit_error_def balance_unit_def
  using store_balances_error_indep [of str _ _ 0 _ bal "[]"]
  by (auto split: prod.splits sum.splits simp: Let_def)

lemma balance_unit_length:
  "length (snd (balance_unit str b opts u bal)) = length bal"
  unfolding balance_unit_def
  by (auto split: prod.splits sum.splits simp: Let_def store_balances_length)

lemma balance_unit_frame:
  assumes "p < off \<or> off + length sub \<le> p"
  shows "snd (balance_unit str b opts (off, sub) bal) ! p = bal ! p"
  unfolding balance_unit_def
  using assms store_balances_frame [of p off 0 _ str sub bal]
  by (auto split: sum.splits simp: Let_def)

lemma balance_unit_ok:
  assumes "unit_error str b opts (off, sub) = None"
  shows "\<exists>sbs. decoded_chunk b opts sub = Some sbs \<and> length sbs = length sub
           \<and> (\<forall>x\<in>set sbs. x \<noteq> None)
           \<and> (\<forall>m<length sub. off + m < length bal \<longrightarrow>
                 snd (balance_unit str b opts (off, sub) bal) ! (off + m) = sbs ! m)"
proof -
  from assms have e: "fst (balance_unit str b opts (off, sub) bal) = None"
    by (simp add: balance_unit_error)
  then obtain callData response sbs where
    p: "Pack_balances (abi b) sub [0] = Inr callData"
    and c: "BalanceBatcher.client b \<lparr>To = BalanceBatcher.contractAddress b, Data = callData\<rparr>
              (blockNumber_of opts) = Inr response"
    and u: "Unpack_balances (abi b) response = Inr sbs"
    and l: "length sbs = length sub"
    unfolding balance_unit_def by (auto split: sum.splits if_splits simp: Let_def)
  have bu: "balance_unit str b opts (off, sub) bal = store_balances str sub off 0 sbs bal"
    using p c u l by (simp add: balance_unit_def)
  have "fst (store_balances str sub off 0 sbs bal) = None" using e bu by simp
  from store_balances_ok [OF this] l bu p c u show ?thesis
    by (simp add: decoded_chunk_def)
qed

subsection \<open>The units in the order they finish\<close>

lemma run_units_length:
  "length (snd (run_units str b opts us err bal)) = length bal"
proof (induction us arbitrary: err bal)
  case Nil
  then show ?case by simp
next
  case (Cons u us)
  obtain e bal' where bu: "balance_unit str b opts u bal = (e, bal')"
    by (cases "balance_unit str b opts u bal")
  then have "length bal' = length bal" using balance_unit_length [of str b opts u bal] by simp
  then show ?case using bu Cons.IH by simp
qed

lemma run_units_some:
  "fst (run_units str b opts us (Some e) bal) = Some e"
  by (induction us arbitrary: bal) (auto split: prod.splits)

lemma run_units_none:
  "\<forall>v\<in>set us. unit_error str b opts v = None \<Longrightarrow> fst (run_units str b opts us None bal) = None"
proof (induction us arbitrary: bal)
  case Nil
  then show ?case by simp
next
  case (Cons u us)
  obtain e bal' where bu: "balance_unit str b opts u bal = (e, bal')"
    by (cases "balance_unit str b opts u bal")
  then have "e = None" using balance_unit_error [of str b opts u bal] Cons.prems by simp
  then show ?case using bu Cons by simp
qed

lemma run_units_first:
  assumes "\<forall>v\<in>set pre. unit_error str b opts v = None" "unit_error str b opts u = Some e"
  shows "fst (run_units str b opts (pre @ u # post) None bal) = Some e"
  using assms(1)
proof (induction pre arbitrary: bal)
  case Nil
  obtain e' bal' where bu: "balance_unit str b opts u bal = (e', bal')"
    by (cases "balance_unit str b opts u bal")
  then have "e' = Some e" using balance_unit_error [of str b opts u bal] assms(2) by simp
  then show ?case using bu by (simp add: run_units_some)
next
  case (Cons v pre)
  obtain e' bal' where bu: "balance_unit str b opts v bal = (e', bal')"
    by (cases "balance_unit str b opts v bal")
  then have "e' = None" using balance_unit_error [of str b opts v bal] Cons.prems by simp
  then show ?case using bu Cons by simp
qed


lemma chunk_other:
  assumes "0 < C" "p div C \<noteq> k"
  shows "p < fst (chunk_at C addresses k)
       \<or> fst (chunk_at C addresses k) + length (snd (chunk_at C addresses k)) \<le> p"
proof -
  have "p < k * C \<or> k * C + C \<le> p"
  proof (rule ccontr)
    assume "\<not> (p < k * C \<or> k * C + C \<le> p)"
    then have "C * k \<le> p" "p < C * Suc k" by (simp_all add: mult.commute)
    then have "p div C = k" by (rule div_nat_eqI)
    with assms(2) show False by simp
  qed
  then show ?thesis by (auto simp: chunk_at_def)
qed

lemma chunk_own:
  assumes "0 < C" "p < length addresses"
  shows "p mod C < length (snd (chunk_at C addresses (p div C)))"
    and "fst (chunk_at C addresses (p div C)) + p mod C = p"
    and "snd (chunk_at C addresses (p div C)) ! (p mod C) = addresses ! p"
proof -
  have p: "p div C * C + p mod C = p" by simp
  have m: "p mod C < C" using assms(1) by simp
  have "p mod C < length addresses - p div C * C" using assms(2) p by linarith
  then show l: "p mod C < length (snd (chunk_at C addresses (p div C)))"
    using m by (simp add: chunk_at_def)
  show "fst (chunk_at C addresses (p div C)) + p mod C = p"
    using p by (simp add: chunk_at_def)
  have "take C (drop (p div C * C) addresses) ! (p mod C) = drop (p div C * C) addresses ! (p mod C)"
    using m by simp
  also have "\<dots> = addresses ! (p div C * C + p mod C)"
    using assms(2) p by (intro nth_drop) linarith
  finally show "snd (chunk_at C addresses (p div C)) ! (p mod C) = addresses ! p"
    using p by (simp add: chunk_at_def)
qed

lemma run_units_frame:
  assumes "0 < C" "p div C \<notin> set ks"
  shows "snd (run_units str b opts (map (chunk_at C addresses) ks) err bal) ! p = bal ! p"
  using assms(2)
proof (induction ks arbitrary: err bal)
  case Nil
  then show ?case by simp
next
  case (Cons k ks)
  obtain off sub where u: "chunk_at C addresses k = (off, sub)"
    by (cases "chunk_at C addresses k")
  obtain e bal' where bu: "balance_unit str b opts (off, sub) bal = (e, bal')"
    by (cases "balance_unit str b opts (off, sub) bal")
  have "p div C \<noteq> k" using Cons.prems by simp
  from chunk_other [OF assms(1) this, of addresses] u
  have "p < off \<or> off + length sub \<le> p" by simp
  then have "bal' ! p = bal ! p" using balance_unit_frame [of p off sub str b opts bal] bu by simp
  moreover have "snd (run_units str b opts (map (chunk_at C addresses) ks)
       (case err of None \<Rightarrow> e | Some first \<Rightarrow> Some first) bal') ! p = bal' ! p"
    by (rule Cons.IH) (use Cons.prems in simp)
  ultimately show ?case using u bu by simp
qed

lemma run_units_value:
  assumes C: "0 < C" and p: "p < length addresses" "p < length bal"
    and ok: "\<forall>k\<in>set ks. unit_error str b opts (chunk_at C addresses k) = None"
    and d: "distinct ks" and k: "p div C \<in> set ks"
  shows "\<exists>sbs. decoded_chunk b opts (snd (chunk_at C addresses (p div C))) = Some sbs
           \<and> length sbs = length (snd (chunk_at C addresses (p div C)))
           \<and> sbs ! (p mod C) \<noteq> None
           \<and> snd (run_units str b opts (map (chunk_at C addresses) ks) err bal) ! p = sbs ! (p mod C)"
  using p(2) ok d k
proof (induction ks arbitrary: err bal)
  case Nil
  then show ?case by simp
next
  case (Cons a ks)
  obtain off sub where u: "chunk_at C addresses a = (off, sub)"
    by (cases "chunk_at C addresses a")
  obtain e bal' where bu: "balance_unit str b opts (off, sub) bal = (e, bal')"
    by (cases "balance_unit str b opts (off, sub) bal")
  have len: "length bal' = length bal"
    using balance_unit_length [of str b opts "(off, sub)" bal] bu by simp
  let ?err = "case err of None \<Rightarrow> e | Some first \<Rightarrow> Some first"
  have step: "run_units str b opts (map (chunk_at C addresses) (a # ks)) err bal =
              run_units str b opts (map (chunk_at C addresses) ks) ?err bal'"
    using u bu by simp
  show ?case
  proof (cases "a = p div C")
    case True
    have "unit_error str b opts (off, sub) = None" using Cons.prems(2) u by simp
    from balance_unit_ok [OF this, of bal] obtain sbs where
      dc: "decoded_chunk b opts sub = Some sbs" and l: "length sbs = length sub"
      and nn: "\<forall>x\<in>set sbs. x \<noteq> None"
      and v: "\<forall>m<length sub. off + m < length bal \<longrightarrow>
                 snd (balance_unit str b opts (off, sub) bal) ! (off + m) = sbs ! m"
      by blast
    have m: "p mod C < length sub" "off + p mod C = p"
      using chunk_own(1,2) [OF C p(1)] u True by simp_all
    then have "bal' ! p = sbs ! (p mod C)" using v bu Cons.prems(1) by auto
    moreover have "p div C \<notin> set ks" using Cons.prems(3) True by simp
    then have "snd (run_units str b opts (map (chunk_at C addresses) ks) ?err bal') ! p = bal' ! p"
      by (rule run_units_frame [OF C])
    moreover have "sbs ! (p mod C) \<noteq> None" using nn m(1) l by simp
    ultimately show ?thesis using dc l u True step by simp
  next
    case False
    then have "p div C \<in> set ks" using Cons.prems(4) by auto
    moreover have "p < length bal'" using len Cons.prems(1) by simp
    ultimately have "\<exists>sbs. decoded_chunk b opts (snd (chunk_at C addresses (p div C))) = Some sbs
           \<and> length sbs = length (snd (chunk_at C addresses (p div C)))
           \<and> sbs ! (p mod C) \<noteq> None
           \<and> snd (run_units str b opts (map (chunk_at C addresses) ks) ?err bal') ! p = sbs ! (p mod C)"
      using Cons.prems(2,3) by (intro Cons.IH) auto
    then show ?thesis using step by simp
  qed
qed

lemma GetEthBalances_positive:
  assumes "0 < BalanceBatchSize b" "ThreadLimit b \<noteq> 0"
    and "C = nat (BalanceBatchSize b)" "n = chunk_count C (length addresses)"
    and "n < fuel" "set sched \<subseteq> {..<n}"
  shows "GetEthBalances fuel str sched b addresses opts =
           (case run_units str b opts (map (chunk_at C addresses) sched) None
                   (replicate (length addresses) None) of
              (Some err, balances') \<Rightarrow>
                Some (Returned (Inl (Errorf_w ''error getting balances: '' err)))
            | (None, balances') \<Rightarrow> Some (Returned (Inr balances')))"
proof -
  have "chunk_loop fuel b addresses (int (0 * C)) [] =
           Some (Returned ([] @ map (chunk_at C addresses) [0..<n]))"
    by (rule chunk_loop_positive [OF assms(1-4)]) (use assms(5) in auto)
  then have cl: "chunk_loop fuel b addresses 0 [] = Some (Returned (chunk_units C addresses))"
    using assms(4) by (simp add: chunk_units_def)
  have m: "map (\<lambda>k. chunk_units C addresses ! k) sched = map (chunk_at C addresses) sched"
    using assms(4,6) by (auto simp: chunk_units_def)
  show ?thesis by (simp add: GetEthBalances_def Let_def cl m)
qed

subsection \<open>Order of the balances\<close>

text \<open>
  C2. Take a positive batch size \<open>C\<close>, a thread limit other than zero, any order \<open>sched\<close> in
  which the units finish (a list holding each unit once) and fuel for one round more than
  there are chunks. \<^verbatim>\<open>GetEthBalances\<close> returns; it returns balances exactly when no unit
  fails; and the balances it returns are as many as the addresses, the one at position \<open>i\<close>
  being the entry \<open>i mod C\<close> of the list decoded from the response to chunk \<open>i div C\<close>, whose
  address \<open>i mod C\<close> is \<open>addresses[i]\<close>, and never nil. The chunks, one after the other, are
  the address list: none is dropped and none is repeated.
\<close>

theorem GetEthBalances_order_preserving:
  assumes pos: "0 < BalanceBatchSize b" and lim: "ThreadLimit b \<noteq> 0"
    and C: "C = nat (BalanceBatchSize b)"
    and sched: "distinct sched" "set sched = {..<chunk_count C (length addresses)}"
    and fuel: "chunk_count C (length addresses) < fuel"
  shows "\<exists>r. GetEthBalances fuel str sched b addresses opts = Some (Returned r)
         \<and> ((\<exists>balances. r = Inr balances) \<longleftrightarrow>
              (\<forall>k<chunk_count C (length addresses).
                  unit_error str b opts (chunk_at C addresses k) = None))
         \<and> (\<forall>balances. r = Inr balances \<longrightarrow>
               length balances = length addresses
               \<and> (\<forall>i<length addresses. \<exists>sub.
                     decoded_chunk b opts (snd (chunk_at C addresses (i div C))) = Some sub
                     \<and> snd (chunk_at C addresses (i div C)) ! (i mod C) = addresses ! i
                     \<and> balances ! i = sub ! (i mod C) \<and> balances ! i \<noteq> None))
         \<and> concat (map snd (chunk_units C addresses)) = addresses"
proof -
  let ?n = "chunk_count C (length addresses)"
  let ?us = "map (chunk_at C addresses) sched"
  let ?bal = "replicate (length addresses) (None :: int option)"
  have C0: "0 < C" using pos C by simp
  have sub: "set sched \<subseteq> {..<?n}" using sched(2) by simp
  obtain err bal' where ru: "run_units str b opts ?us None ?bal = (err, bal')"
    by (cases "run_units str b opts ?us None ?bal")
  have g: "GetEthBalances fuel str sched b addresses opts =
      (case err of Some e \<Rightarrow> Some (Returned (Inl (Errorf_w ''error getting balances: '' e)))
       | None \<Rightarrow> Some (Returned (Inr bal')))"
    using GetEthBalances_positive [OF pos lim C refl fuel sub, of str opts] ru
    by (simp split: option.splits)
  have len: "length bal' = length addresses"
    using run_units_length [of str b opts ?us None ?bal] ru by simp
  have all_ok: "\<forall>k\<in>set sched. unit_error str b opts (chunk_at C addresses k) = None"
    if "err = None"
  proof (rule ccontr)
    assume "\<not> (\<forall>k\<in>set sched. unit_error str b opts (chunk_at C addresses k) = None)"
    then have "\<exists>k\<in>set sched. unit_error str b opts (chunk_at C addresses k) \<noteq> None" by simp
    from split_list_first_prop [OF this] obtain pre j post where
      s: "sched = pre @ j # post" and j: "unit_error str b opts (chunk_at C addresses j) \<noteq> None"
      and p: "\<forall>i\<in>set pre. \<not> unit_error str b opts (chunk_at C addresses i) \<noteq> None"
      by blast
    from j obtain e where e: "unit_error str b opts (chunk_at C addresses j) = Some e" by auto
    have "fst (run_units str b opts
              (map (chunk_at C addresses) pre @ chunk_at C addresses j # map (chunk_at C addresses) post)
              None ?bal) = Some e"
      by (rule run_units_first) (use p e in auto)
    then show False using s ru that by simp
  qed
  have ok_none: "err = None"
    if "\<forall>k<?n. unit_error str b opts (chunk_at C addresses k) = None"
  proof -
    have "fst (run_units str b opts ?us None ?bal) = None"
      by (rule run_units_none) (use that sched(2) in auto)
    then show ?thesis using ru by simp
  qed
  have val: "\<exists>sub. decoded_chunk b opts (snd (chunk_at C addresses (i div C))) = Some sub
                     \<and> snd (chunk_at C addresses (i div C)) ! (i mod C) = addresses ! i
                     \<and> bal' ! i = sub ! (i mod C) \<and> bal' ! i \<noteq> None"
    if none: "err = None" and i: "i < length addresses" for i
  proof -
    have "i div C * C \<le> i" by simp
    then have "i div C * C < length addresses" using i by linarith
    then have "i div C < ?n" using chunk_count_less [OF C0] by simp
    then have mem: "i div C \<in> set sched" using sched(2) by simp
    have "i < length ?bal" using i by simp
    from run_units_value [OF C0 i this all_ok [OF none] sched(1) mem, of None]
    obtain sbs where "decoded_chunk b opts (snd (chunk_at C addresses (i div C))) = Some sbs"
      "sbs ! (i mod C) \<noteq> None"
      "snd (run_units str b opts ?us None ?bal) ! i = sbs ! (i mod C)"
      by blast
    then show ?thesis using chunk_own(3) [OF C0 i] ru by auto
  qed
  show ?thesis
  proof (cases err)
    case None
    have "\<forall>k<?n. unit_error str b opts (chunk_at C addresses k) = None"
      using all_ok [OF None] sched(2) by simp
    then show ?thesis using g None len val concat_chunk_units [OF C0] by auto
  next
    case (Some e)
    have "\<not> (\<forall>k<?n. unit_error str b opts (chunk_at C addresses k) = None)"
    proof
      assume "\<forall>k<?n. unit_error str b opts (chunk_at C addresses k) = None"
      from ok_none [OF this] Some show False by simp
    qed
    then show ?thesis using g Some concat_chunk_units [OF C0] by auto
  qed
qed

theorem GetEthBalances_order_preserving_witness:
  "GetEthBalances (Suc (Suc (Suc (Suc 0)))) stub_str [2, 0, 1] (stub_batcher 2 2)
      [1, 2, 3, 4, 5] None =
     Some (Returned (Inr [Some 101, Some 102, Some 103, Some 104, Some 105]))
   \<and> chunk_units 2 [1, 2, 3, 4, 5] = [(0, [1, 2]), (2, [3, 4]), (4, [5])]"
proof -
  let ?b = "stub_batcher 2 2"
  let ?a = "[1, 2, 3, 4, 5] :: address list"
  have pos: "0 < BalanceBatchSize ?b" and lim: "ThreadLimit ?b \<noteq> 0"
    and C: "2 = nat (BalanceBatchSize ?b)"
    by simp_all
  have n: "chunk_count 2 (length ?a) = 3" by (simp add: chunk_count_def)
  have d: "distinct [2, 0, 1 :: nat]" by simp
  have s: "set [2, 0, 1 :: nat] = {..<chunk_count 2 (length ?a)}" unfolding n by auto
  have f: "chunk_count 2 (length ?a) < Suc (Suc (Suc (Suc 0)))" unfolding n by simp
  from GetEthBalances_order_preserving [OF pos lim C d s f, of stub_str None]
  show ?thesis
    by (simp add: GetEthBalances_def balance_unit_def slice_def
        blockNumber_of_def Errorf_w_def Errorf_def Let_def digit_char_def
        chunk_units_def chunk_count_def chunk_at_def upt_conv_Cons)
qed

subsection \<open>The first error\<close>



subsection \<open>The sanity checks of a chunk unit\<close>

text \<open>
  C8. Take a chunk unit whose pack, call and unpack succeed. If the decoded list differs
  in length from the chunk's addresses, the unit reports the length mismatch; if the
  lengths agree and some decoded balance is nil, it reports the first nil, naming the
  address at that position. Either error wraps nothing, is none of the errors of the pack,
  the call or the unpack, and its text differs from every text a failed call or a failed
  unpack can give.
\<close>

theorem balance_unit_integrity:
  assumes pk: "Pack_balances (abi b) subAddresses [0] = Inr callData"
    and cl: "BalanceBatcher.client b \<lparr>To = BalanceBatcher.contractAddress b, Data = callData\<rparr>
               (blockNumber_of opts) = Inr response"
    and un: "Unpack_balances (abi b) response = Inr subBalances"
    and bad: "length subBalances \<noteq> length subAddresses \<or> None \<in> set subBalances"
  shows "\<exists>e. fst (balance_unit str b opts (i, subAddresses) balances) = Some e
         \<and> (length subBalances \<noteq> length subAddresses \<longrightarrow>
              e = Errorf (''received '' @ show_nat (length subBalances)
                     @ '' balances which mismatches query batch size ''
                     @ show_nat (length subAddresses)))
         \<and> (length subBalances = length subAddresses \<longrightarrow>
              (\<exists>j<length subBalances. subBalances ! j = None \<and> (\<forall>m<j. subBalances ! m \<noteq> None)
                 \<and> e = Errorf (''received nil balance for address '' @ str (subAddresses ! j))))
         \<and> Unwrap e = None
         \<and> (\<forall>cause. e \<noteq> Errorf_w ''error creating calldata for balances: '' cause
                  \<and> e \<noteq> Errorf_w ''error calling balances: '' cause
                  \<and> e \<noteq> Errorf_w ''error unpacking balances response: '' cause)
         \<and> (\<forall>m. Error e \<noteq> ''error calling balances: '' @ m
               \<and> Error e \<noteq> ''error unpacking balances response: '' @ m)"
proof (cases "length subBalances = length subAddresses")
  case False
  then have "fst (balance_unit str b opts (i, subAddresses) balances) =
      Some (Errorf (''received '' @ show_nat (length subBalances)
                     @ '' balances which mismatches query batch size ''
                     @ show_nat (length subAddresses)))"
    using pk cl un by (simp add: balance_unit_def)
  then show ?thesis using False by (simp add: Errorf_def Errorf_w_def)
next
  case True
  then have nil: "None \<in> set subBalances" using bad by simp
  from split_list_first [OF nil] obtain pre post where
    s: "subBalances = pre @ None # post" and p: "None \<notin> set pre" by blast
  have p': "\<forall>x\<in>set pre. x \<noteq> None"
  proof (intro ballI notI)
    fix x assume "x \<in> set pre" "x = None"
    with p show False by simp
  qed
  have "fst (store_balances str subAddresses i 0 (pre @ None # post) balances) =
     Some (Errorf (''received nil balance for address '' @ str (subAddresses ! (0 + length pre))))"
    by (rule store_balances_nil [OF p'])
  then have e: "fst (balance_unit str b opts (i, subAddresses) balances) =
      Some (Errorf (''received nil balance for address '' @ str (subAddresses ! length pre)))"
    using pk cl un True s by (simp add: balance_unit_def)
  have j: "length pre < length subBalances" "subBalances ! length pre = None"
    using s by (auto simp: nth_append)
  have j': "\<forall>m<length pre. subBalances ! m \<noteq> None"
  proof (intro allI impI)
    fix m assume m: "m < length pre"
    then have "pre ! m \<in> set pre" by simp
    then have "pre ! m \<noteq> None" using p' by blast
    then show "subBalances ! m \<noteq> None" using s m by (simp add: nth_append)
  qed
  show ?thesis
    apply (rule exI [of _ "Errorf (''received nil balance for address ''
                             @ str (subAddresses ! length pre))"])
    using e True j j' by (auto simp: Errorf_def Errorf_w_def)
qed

theorem balance_unit_integrity_witness:
  "fst (balance_unit stub_str (stub_batcher 2 2) None (4, [2, 253])
          [None, None, None, None, None, None]) =
     Some (GoError ''received 1 balances which mismatches query batch size 2'' None)
   \<and> balance_unit stub_str (stub_batcher 3 2) None (3, [2, 255, 3])
          [None, None, None, None, None, None] =
     (Some (GoError ''received nil balance for address 0xFF'' None),
      [None, None, None, Some 102, None, None])"
proof -
  let ?b = "stub_batcher 2 2"
  let ?b' = "stub_batcher 3 2"
  have pk: "Pack_balances (abi ?b) [2, 253] [0] = Inr [2, 253]"
    and cl: "BalanceBatcher.client ?b \<lparr>To = BalanceBatcher.contractAddress ?b, Data = [2, 253]\<rparr>
               (blockNumber_of None) = Inr [2]"
    and un: "Unpack_balances (abi ?b) [2] = Inr [Some 102]"
    and bad: "length [Some (102 :: int)] \<noteq> length [2, 253 :: address] \<or> None \<in> set [Some (102 :: int)]"
    by (simp_all add: GetEthBalances_def balance_unit_def slice_def
        blockNumber_of_def Errorf_w_def Errorf_def Let_def digit_char_def)
  have pk': "Pack_balances (abi ?b') [2, 255, 3] [0] = Inr [2, 255, 3]"
    and cl': "BalanceBatcher.client ?b' \<lparr>To = BalanceBatcher.contractAddress ?b', Data = [2, 255, 3]\<rparr>
               (blockNumber_of None) = Inr [2, 255, 3]"
    and un': "Unpack_balances (abi ?b') [2, 255, 3] = Inr [Some 102, None, Some 103]"
    and bad': "length [Some (102 :: int), None, Some 103] \<noteq> length [2, 255, 3 :: address]
                \<or> None \<in> set [Some (102 :: int), None, Some 103]"
    by (simp_all add: GetEthBalances_def balance_unit_def slice_def
        blockNumber_of_def Errorf_w_def Errorf_def Let_def digit_char_def)
  from balance_unit_integrity [OF pk cl un bad, of stub_str 4 "[None, None, None, None, None, None]"]
    balance_unit_integrity [OF pk' cl' un' bad', of stub_str 3 "[None, None, None, None, None, None]"]
  show ?thesis by (simp add: GetEthBalances_def balance_unit_def slice_def
        blockNumber_of_def Errorf_w_def Errorf_def Let_def digit_char_def)
qed

subsection \<open>Termination of the chunking loop\<close>




end
